theory Spec2Isabelle
  imports Main
begin

section \<open>React.Children: flattening a children tree and assigning keys\<close>

text \<open>
  A shallow embedding of \<^verbatim>\<open>packages/react/src/ReactChildren.js\<close>. Every function below
  carries the name of the JavaScript function it embeds and follows its branches in the
  source's order. Exceptions are values (\<open>Inl\<close>), the module-level pool and the objects it
  shares with the running traversals live in an explicit store, and the user's transform is
  a total function of the bound \<^verbatim>\<open>this\<close>, the child and the index.
\<close>

subsection \<open>Values\<close>

text \<open>
  An element as \<^verbatim>\<open>ReactElement.js\<close> builds it: a key that is \<^verbatim>\<open>null\<close> or a string, and the
  rest of the object (type, props, ref, owner), which this module never inspects.
\<close>

record element =
  key :: "string option"
  payload :: string

text \<open>
  The JavaScript values a children tree is made of, one constructor per case that
  \<^verbatim>\<open>traverseAllChildrenImpl\<close> distinguishes:
  \<^item> \<open>VFunction\<close>: a function or a symbol (\<^verbatim>\<open>typeof\<close> is none of undefined, boolean, string,
    number, object);
  \<^item> \<open>VElement\<close>, \<open>VPortal\<close>: an object whose \<^verbatim>\<open>$$typeof\<close> is \<^verbatim>\<open>REACT_ELEMENT_TYPE\<close>,
    \<^verbatim>\<open>REACT_PORTAL_TYPE\<close>;
  \<^item> \<open>VArray\<close>: an array (\<^verbatim>\<open>Array.isArray\<close>), with no \<^verbatim>\<open>key\<close> property;
  \<^item> \<open>VIterable m xs\<close>: any other object for which \<^verbatim>\<open>getIteratorFn\<close> returns a function; its
    iterator yields \<open>xs\<close> and then is done, \<open>m\<close> tells whether the iterator function is the
    object's \<^verbatim>\<open>entries\<close> (a Map), and it has no \<^verbatim>\<open>key\<close> property;
  \<^item> \<open>VObject k str names\<close>: any other object; \<open>k\<close> is its \<^verbatim>\<open>key\<close> property as a string
    (\<open>None\<close> when null or undefined), \<open>str\<close> is \<^verbatim>\<open>'' + object\<close> and \<open>names\<close> is
    \<^verbatim>\<open>Object.keys(object)\<close>.
\<close>

datatype val =
    VUndefined
  | VNull
  | VBool bool
  | VString string
  | VNumber int
  | VFunction string
  | VElement element
  | VPortal element
  | VArray "val list"
  | VIterable bool "val list"
  | VObject "string option" string "string list"

text \<open>\<^verbatim>\<open>invariant(false, format, ...args)\<close> throws; the error carries what the call was given.
  \<open>TypeError\<close> is what JavaScript throws on a property read or a call on \<^verbatim>\<open>null\<close>.
  \<open>DepthExceeded\<close> belongs to the model only: the mutual recursion of
  \<^verbatim>\<open>mapSingleChildIntoContext\<close> and \<^verbatim>\<open>mapIntoWithKeyPrefixInternal\<close> is bounded by a depth
  argument, and \<open>mapChildren_never_DepthExceeded\<close> below shows that depth 1 is never exceeded.\<close>

datatype error =
    InvariantViolation string "string list"
  | TypeError
  | DepthExceeded

subsection \<open>Key escaper\<close>

definition SEPARATOR :: string where
  "SEPARATOR = ''.''"

definition SUBSEPARATOR :: string where
  "SUBSEPARATOR = '':''"

text \<open>\<^verbatim>\<open>String.prototype.replace\<close> with a global regular expression that matches one
  character of a class, and a replacer function: one pass, left to right, every match
  replaced by what the replacer returns for it.\<close>

fun replaceAll :: "(char \<Rightarrow> bool) \<Rightarrow> (char \<Rightarrow> string) \<Rightarrow> string \<Rightarrow> string" where
  "replaceAll matches replacer [] = []"
| "replaceAll matches replacer (c # cs) =
     (if matches c then replacer c else [c]) @ replaceAll matches replacer cs"

definition escapeRegex :: "char \<Rightarrow> bool" where
  "escapeRegex c \<longleftrightarrow> c = CHR ''='' \<or> c = CHR '':''"

definition escaperLookup :: "(char \<times> string) list" where
  "escaperLookup = [(CHR ''='', ''=0''), (CHR '':'', ''=2'')]"

definition escape :: "string \<Rightarrow> string" where
  "escape k =
     (let escapedString =
        replaceAll escapeRegex
          (\<lambda>match. case map_of escaperLookup match of Some r \<Rightarrow> r | None \<Rightarrow> ''undefined'') k
      in ''$'' @ escapedString)"

text \<open>\<^verbatim>\<open>text.replace(/\/+/g, '$&/')\<close>: every maximal run of slashes is replaced by itself
  followed by one more slash. A slash ends its run when the next character is not a slash.\<close>

fun escapeUserProvidedKey :: "string \<Rightarrow> string" where
  "escapeUserProvidedKey [] = []"
| "escapeUserProvidedKey [c] = (if c = CHR ''/'' then [c, CHR ''/''] else [c])"
| "escapeUserProvidedKey (c # d # cs) =
     (if c = CHR ''/'' \<and> d \<noteq> CHR ''/'' then c # CHR ''/'' # escapeUserProvidedKey (d # cs)
      else c # escapeUserProvidedKey (d # cs))"

text \<open>\<^verbatim>\<open>index.toString(36)\<close> for an array index.\<close>

definition digits36 :: string where
  "digits36 = ''0123456789abcdefghijklmnopqrstuvwxyz''"

function toString36 :: "nat \<Rightarrow> string" where
  "toString36 n =
     (if n < 36 then [digits36 ! n] else toString36 (n div 36) @ [digits36 ! (n mod 36)])"
  by pat_completeness auto
termination
  by (relation "measure (\<lambda>n. n)") auto

text \<open>\<^verbatim>\<open>typeof v === 'object'\<close> (true of \<^verbatim>\<open>null\<close>), and the property read \<^verbatim>\<open>v.key\<close> where it
  is not null or undefined.\<close>

fun typeofObject :: "val \<Rightarrow> bool" where
  "typeofObject VNull = True"
| "typeofObject (VElement e) = True"
| "typeofObject (VPortal e) = True"
| "typeofObject (VArray xs) = True"
| "typeofObject (VIterable m xs) = True"
| "typeofObject (VObject k str names) = True"
| "typeofObject v = False"

fun keyOf :: "val \<Rightarrow> string option" where
  "keyOf (VElement e) = key e"
| "keyOf (VPortal e) = key e"
| "keyOf (VObject k str names) = k"
| "keyOf v = None"

definition getComponentKey :: "val \<Rightarrow> nat \<Rightarrow> string" where
  "getComponentKey component index =
     (if typeofObject component \<and> component \<noteq> VNull \<and> keyOf component \<noteq> None
      then escape (the (keyOf component))
      else toString36 index)"

subsection \<open>Elements\<close>

text \<open>Modelled from the spec: \<^verbatim>\<open>isValidElement\<close> and \<^verbatim>\<open>cloneAndReplaceKey\<close> are imported from
  \<^verbatim>\<open>ReactElement.js\<close>, which is not among the sources. The spec consumes them as
  \<^verbatim>\<open>isRenderableElement(x) -> bool\<close> and \<^verbatim>\<open>cloneWithKey(element, newKey) -> element\<close>: the
  first holds of an element object only, the second returns the element with its key
  replaced.\<close>

fun isValidElement :: "val \<Rightarrow> bool" where
  "isValidElement (VElement e) = True"
| "isValidElement v = False"

fun cloneAndReplaceKey :: "val \<Rightarrow> string \<Rightarrow> val" where
  "cloneAndReplaceKey (VElement oldElement) newKey = VElement (oldElement\<lparr>key := Some newKey\<rparr>)"
| "cloneAndReplaceKey v newKey = v"

subsection \<open>onlyChild\<close>

definition onlyChild :: "val \<Rightarrow> error + val" where
  "onlyChild children =
     (if isValidElement children then Inr children
      else Inl (InvariantViolation
        ''React.Children.only expected to receive a single React element child.'' []))"

subsection \<open>Store: traversal contexts, result arrays, the pool\<close>

type_synonym addr = nat

text \<open>The user's transform, called as \<^verbatim>\<open>func.call(context, child, index)\<close>: a total function
  of the bound \<^verbatim>\<open>this\<close>, the child and the index.\<close>

type_synonym mapFunction = "val \<Rightarrow> val \<Rightarrow> nat \<Rightarrow> val"

text \<open>The object \<^verbatim>\<open>getPooledTraverseContext\<close> hands out. \<^verbatim>\<open>result\<close> is a reference to the
  output array or \<^verbatim>\<open>null\<close>; \<^verbatim>\<open>keyPrefix\<close> and \<^verbatim>\<open>func\<close> are \<open>None\<close> when \<^verbatim>\<open>null\<close>; the bound
  context is any value.\<close>

record traverseContext =
  ctx_result :: "addr option"
  ctx_keyPrefix :: "string option"
  ctx_func :: "mapFunction option"
  ctx_context :: val
  ctx_count :: nat

text \<open>
  The module's state and the objects it shares by reference. A traversal context and a
  result array are reached through their address (the index in \<open>contexts\<close>, in \<open>arrays\<close>):
  the pool holds addresses, so a context that is both pooled and in use would be seen as
  such. \<open>DEV\<close> is the build flag \<^verbatim>\<open>__DEV__\<close>; \<open>stackAddendum\<close> is what
  \<^verbatim>\<open>ReactDebugCurrentFrame.getStackAddendum()\<close> returns; \<open>warnings\<close> collects what
  \<^verbatim>\<open>warning\<close> prints.
\<close>

record state =
  contexts :: "traverseContext list"
  arrays :: "val list list"
  traverseContextPool :: "addr list"
  didWarnAboutMaps :: bool
  warnings :: "string list"
  DEV :: bool
  stackAddendum :: string

definition POOL_SIZE :: nat where
  "POOL_SIZE = 10"

definition getPooledTraverseContext ::
  "addr option \<Rightarrow> string option \<Rightarrow> mapFunction option \<Rightarrow> val \<Rightarrow> state \<Rightarrow> addr \<times> state" where
  "getPooledTraverseContext mapResult keyPrefix mapFunction mapContext s =
     (if traverseContextPool s \<noteq> [] then
        (let traverseContext = last (traverseContextPool s);
             s1 = s\<lparr>traverseContextPool := butlast (traverseContextPool s)\<rparr>
         in (traverseContext,
             s1\<lparr>contexts := (contexts s1)[traverseContext :=
                   (contexts s1 ! traverseContext)\<lparr>ctx_result := mapResult,
                     ctx_keyPrefix := keyPrefix, ctx_func := mapFunction,
                     ctx_context := mapContext, ctx_count := 0\<rparr>]\<rparr>))
      else
        (length (contexts s),
         s\<lparr>contexts := contexts s @
              [\<lparr>ctx_result = mapResult, ctx_keyPrefix = keyPrefix, ctx_func = mapFunction,
                ctx_context = mapContext, ctx_count = 0\<rparr>]\<rparr>))"

definition releaseTraverseContext :: "addr \<Rightarrow> state \<Rightarrow> state" where
  "releaseTraverseContext traverseContext s =
     (let s1 = s\<lparr>contexts := (contexts s)[traverseContext :=
                  (contexts s ! traverseContext)\<lparr>ctx_result := None, ctx_keyPrefix := None,
                    ctx_func := None, ctx_context := VNull, ctx_count := 0\<rparr>]\<rparr>
      in if length (traverseContextPool s1) < POOL_SIZE
         then s1\<lparr>traverseContextPool := traverseContextPool s1 @ [traverseContext]\<rparr>
         else s1)"

subsection \<open>Tree traverser\<close>

type_synonym callback = "addr option \<Rightarrow> val \<Rightarrow> string \<Rightarrow> state \<Rightarrow> (error + unit) \<times> state"

text \<open>\<^verbatim>\<open>warning(condition, message)\<close> prints the message when the condition is false.\<close>

definition warning :: "bool \<Rightarrow> string \<Rightarrow> state \<Rightarrow> state" where
  "warning condition message s = (if condition then s else s\<lparr>warnings := warnings s @ [message]\<rparr>)"

text \<open>\<^verbatim>\<open>Array.prototype.join\<close>.\<close>

fun join :: "string \<Rightarrow> string list \<Rightarrow> string" where
  "join sep [] = []"
| "join sep [x] = x"
| "join sep (x # y # ys) = x @ sep @ join sep (y # ys)"

text \<open>The branch \<^verbatim>\<open>if (invokeCallback)\<close>: the callback gets the context, the child and its
  name, and the subtree counts one child.\<close>

definition invokeCallback ::
  "val \<Rightarrow> string \<Rightarrow> callback \<Rightarrow> addr option \<Rightarrow> state \<Rightarrow> (error + nat) \<times> state" where
  "invokeCallback children nameSoFar callback traverseContext s =
     (case callback traverseContext children
             (if nameSoFar = '''' then SEPARATOR @ getComponentKey children 0 else nameSoFar) s of
        (Inl e, s') \<Rightarrow> (Inl e, s')
      | (Inr u, s') \<Rightarrow> (Inr 1, s'))"

definition nextNamePrefix :: "string \<Rightarrow> string" where
  "nextNamePrefix nameSoFar = (if nameSoFar = '''' then SEPARATOR else nameSoFar @ SUBSEPARATOR)"

text \<open>
  \<open>traverseAllChildrenImpl\<close>, one equation per kind of value, in the order of the source:
  undefined and booleans are perceived as null; null, strings, numbers, elements and
  portals invoke the callback; an array and an iterable are walked by the same loop
  (\<open>traverseChildren\<close>: the index, the running \<open>subtreeCount\<close>); any other object throws;
  anything else (a function, a symbol) falls through and counts nothing. An exception
  leaves the loop at once, with the state as it is then.
\<close>

fun traverseAllChildrenImpl ::
    "val \<Rightarrow> string \<Rightarrow> callback \<Rightarrow> addr option \<Rightarrow> state \<Rightarrow> (error + nat) \<times> state"
  and traverseChildren ::
    "val list \<Rightarrow> nat \<Rightarrow> string \<Rightarrow> callback \<Rightarrow> addr option \<Rightarrow> nat \<Rightarrow> state
       \<Rightarrow> (error + nat) \<times> state"
where
  "traverseAllChildrenImpl VUndefined nameSoFar callback traverseContext s =
     invokeCallback VNull nameSoFar callback traverseContext s"
| "traverseAllChildrenImpl (VBool b) nameSoFar callback traverseContext s =
     invokeCallback VNull nameSoFar callback traverseContext s"
| "traverseAllChildrenImpl VNull nameSoFar callback traverseContext s =
     invokeCallback VNull nameSoFar callback traverseContext s"
| "traverseAllChildrenImpl (VString str) nameSoFar callback traverseContext s =
     invokeCallback (VString str) nameSoFar callback traverseContext s"
| "traverseAllChildrenImpl (VNumber n) nameSoFar callback traverseContext s =
     invokeCallback (VNumber n) nameSoFar callback traverseContext s"
| "traverseAllChildrenImpl (VElement e) nameSoFar callback traverseContext s =
     invokeCallback (VElement e) nameSoFar callback traverseContext s"
| "traverseAllChildrenImpl (VPortal e) nameSoFar callback traverseContext s =
     invokeCallback (VPortal e) nameSoFar callback traverseContext s"
| "traverseAllChildrenImpl (VArray xs) nameSoFar callback traverseContext s =
     traverseChildren xs 0 (nextNamePrefix nameSoFar) callback traverseContext 0 s"
| "traverseAllChildrenImpl (VIterable isEntries xs) nameSoFar callback traverseContext s =
     (let s1 = (if DEV s \<and> isEntries
                then (warning (didWarnAboutMaps s)
                       (''Using Maps as children is unsupported and will likely yield '' @
                        ''unexpected results. Convert it to a sequence/iterable of keyed '' @
                        ''ReactElements instead.'') s)\<lparr>didWarnAboutMaps := True\<rparr>
                else s)
      in traverseChildren xs 0 (nextNamePrefix nameSoFar) callback traverseContext 0 s1)"
| "traverseAllChildrenImpl (VObject k childrenString names) nameSoFar callback traverseContext s =
     (let addendum =
        (if DEV s
         then '' If you meant to render a collection of children, use an array '' @
              ''instead.'' @ stackAddendum s
         else '''')
      in (Inl (InvariantViolation ''Objects are not valid as a React child (found: %s).%s''
                [if childrenString = ''[object Object]''
                 then ''object with keys {'' @ join '', '' names @ ''}''
                 else childrenString,
                 addendum]), s))"
| "traverseAllChildrenImpl (VFunction f) nameSoFar callback traverseContext s = (Inr 0, s)"
| "traverseChildren [] i namePrefix callback traverseContext subtreeCount s =
     (Inr subtreeCount, s)"
| "traverseChildren (child # rest) i namePrefix callback traverseContext subtreeCount s =
     (case traverseAllChildrenImpl child (namePrefix @ getComponentKey child i) callback
             traverseContext s of
        (Inl e, s') \<Rightarrow> (Inl e, s')
      | (Inr n, s') \<Rightarrow>
          traverseChildren rest (Suc i) namePrefix callback traverseContext (subtreeCount + n) s')"

definition traverseAllChildren ::
  "val \<Rightarrow> callback \<Rightarrow> addr option \<Rightarrow> state \<Rightarrow> (error + nat) \<times> state" where
  "traverseAllChildren children callback traverseContext s =
     (if children = VNull \<or> children = VUndefined then (Inr 0, s)
      else traverseAllChildrenImpl children '''' callback traverseContext s)"

subsection \<open>Child operations\<close>

text \<open>\<^verbatim>\<open>!child\<close>: the values JavaScript takes for false.\<close>

fun falsy :: "val \<Rightarrow> bool" where
  "falsy VUndefined = True"
| "falsy VNull = True"
| "falsy (VBool b) = (\<not> b)"
| "falsy (VString str) = (str = '''')"
| "falsy (VNumber n) = (n = 0)"
| "falsy v = False"

fun isArray :: "val \<Rightarrow> bool" where
  "isArray (VArray xs) = True"
| "isArray v = False"

text \<open>The statement \<^verbatim>\<open>if (isValidElement(mappedChild)) mappedChild = cloneAndReplaceKey(...)\<close>
  of \<^verbatim>\<open>mapSingleChildIntoContext\<close>. The test \<^verbatim>\<open>mappedChild.key && ...\<close> asks for a key that is
  neither null nor the empty string; \<^verbatim>\<open>child.key !== mappedChild.key\<close> compares it with the
  key of the child (undefined on a string or a number); \<^verbatim>\<open>keyPrefix + ...\<close> turns a null
  prefix into the text \<^verbatim>\<open>null\<close>.\<close>

definition rekey :: "string option \<Rightarrow> val \<Rightarrow> val \<Rightarrow> string \<Rightarrow> val" where
  "rekey keyPrefix child mappedChild childKey =
     (if isValidElement mappedChild then
        cloneAndReplaceKey mappedChild
          ((case keyPrefix of None \<Rightarrow> ''null'' | Some p \<Rightarrow> p) @
           (case keyOf mappedChild of
              None \<Rightarrow> ''''
            | Some mappedKey \<Rightarrow>
                if mappedKey \<noteq> '''' \<and> (falsy child \<or> keyOf child \<noteq> Some mappedKey)
                then escapeUserProvidedKey mappedKey @ ''/''
                else '''') @
           childKey)
      else mappedChild)"

definition forEachSingleChild :: callback where
  "forEachSingleChild bookKeeping child name s =
     (case bookKeeping of
        None \<Rightarrow> (Inl TypeError, s)
      | Some a \<Rightarrow>
          (let bk = contexts s ! a in
           case ctx_func bk of
             None \<Rightarrow> (Inl TypeError, s)
           | Some func \<Rightarrow>
               (let returned = func (ctx_context bk) child (ctx_count bk)
                in (Inr (), s\<lparr>contexts := (contexts s)[a := bk\<lparr>ctx_count := ctx_count bk + 1\<rparr>]\<rparr>))))"

definition forEachChildren :: "val \<Rightarrow> mapFunction \<Rightarrow> val \<Rightarrow> state \<Rightarrow> (error + val) \<times> state" where
  "forEachChildren children forEachFunc forEachContext s =
     (if children = VNull \<or> children = VUndefined then (Inr children, s)
      else
        (case getPooledTraverseContext None None (Some forEachFunc) forEachContext s of
           (traverseContext, s1) \<Rightarrow>
             (case traverseAllChildren children forEachSingleChild (Some traverseContext) s1 of
                (Inl e, s2) \<Rightarrow> (Inl e, s2)
              | (Inr n, s2) \<Rightarrow> (Inr VUndefined, releaseTraverseContext traverseContext s2))))"

text \<open>
  \<open>mapSingleChildIntoContext\<close> and \<open>mapIntoWithKeyPrefixInternal\<close> call each other; the
  first argument bounds the depth of that nesting. The array \<^verbatim>\<open>result\<close> is passed on by
  reference, so what the nested call pushes is in the caller's array.
\<close>

fun mapSingleChildIntoContext :: "nat \<Rightarrow> callback"
  and mapIntoWithKeyPrefixInternal ::
    "nat \<Rightarrow> val \<Rightarrow> addr option \<Rightarrow> string option \<Rightarrow> mapFunction \<Rightarrow> val \<Rightarrow> state
       \<Rightarrow> (error + unit) \<times> state"
where
  "mapSingleChildIntoContext depth bookKeeping child childKey s =
     (case bookKeeping of
        None \<Rightarrow> (Inl TypeError, s)
      | Some a \<Rightarrow>
          (let bk = contexts s ! a;
               result = ctx_result bk;
               keyPrefix = ctx_keyPrefix bk
           in case ctx_func bk of
                None \<Rightarrow> (Inl TypeError, s)
              | Some func \<Rightarrow>
                  (let mappedChild = func (ctx_context bk) child (ctx_count bk);
                       s1 = s\<lparr>contexts := (contexts s)[a := bk\<lparr>ctx_count := ctx_count bk + 1\<rparr>]\<rparr>
                   in if isArray mappedChild then
                        (case depth of
                           0 \<Rightarrow> (Inl DepthExceeded, s1)
                         | Suc depth' \<Rightarrow>
                             mapIntoWithKeyPrefixInternal depth' mappedChild result (Some childKey)
                               (\<lambda>this c i. c) VUndefined s1)
                      else if mappedChild \<noteq> VNull \<and> mappedChild \<noteq> VUndefined then
                        (let mappedChild' = rekey keyPrefix child mappedChild childKey
                         in case result of
                              None \<Rightarrow> (Inl TypeError, s1)
                            | Some r \<Rightarrow>
                                (Inr (), s1\<lparr>arrays := (arrays s1)[r := arrays s1 ! r @ [mappedChild']]\<rparr>))
                      else (Inr (), s1))))"
| "mapIntoWithKeyPrefixInternal depth children array prefix func mapContext s =
     (let escapedPrefix =
        (case prefix of None \<Rightarrow> '''' | Some p \<Rightarrow> escapeUserProvidedKey p @ ''/'')
      in case getPooledTraverseContext array (Some escapedPrefix) (Some func) mapContext s of
           (traverseContext, s1) \<Rightarrow>
             (case traverseAllChildren children
                     (\<lambda>bookKeeping child childKey s'.
                        mapSingleChildIntoContext depth bookKeeping child childKey s')
                     (Some traverseContext) s1 of
                (Inl e, s2) \<Rightarrow> (Inl e, s2)
              | (Inr n, s2) \<Rightarrow> (Inr (), releaseTraverseContext traverseContext s2)))"

text \<open>\<^verbatim>\<open>const result = []\<close> allocates the output array; the operation returns the array as it
  is when the traversal has returned.\<close>

definition mapChildren :: "nat \<Rightarrow> val \<Rightarrow> mapFunction \<Rightarrow> val \<Rightarrow> state \<Rightarrow> (error + val) \<times> state" where
  "mapChildren depth children func mapContext s =
     (if children = VNull \<or> children = VUndefined then (Inr children, s)
      else
        (let result = length (arrays s);
             s1 = s\<lparr>arrays := arrays s @ [[]]\<rparr>
         in case mapIntoWithKeyPrefixInternal depth children (Some result) None func mapContext s1 of
              (Inl e, s2) \<Rightarrow> (Inl e, s2)
            | (Inr u, s2) \<Rightarrow> (Inr (VArray (arrays s2 ! result)), s2)))"

definition countChildren :: "val \<Rightarrow> state \<Rightarrow> (error + nat) \<times> state" where
  "countChildren children s =
     traverseAllChildren children (\<lambda>bookKeeping child name s'. (Inr (), s')) None s"

definition toArray :: "nat \<Rightarrow> val \<Rightarrow> state \<Rightarrow> (error + val) \<times> state" where
  "toArray depth children s =
     (let result = length (arrays s);
          s1 = s\<lparr>arrays := arrays s @ [[]]\<rparr>
      in case mapIntoWithKeyPrefixInternal depth children (Some result) None
                (\<lambda>this child i. child) VUndefined s1 of
           (Inl e, s2) \<Rightarrow> (Inl e, s2)
         | (Inr u, s2) \<Rightarrow> (Inr (VArray (arrays s2 ! result)), s2))"

text \<open>The state when the module has been loaded.\<close>

definition init :: "bool \<Rightarrow> string \<Rightarrow> state" where
  "init dev stack =
     \<lparr>contexts = [], arrays = [], traverseContextPool = [], didWarnAboutMaps = False,
      warnings = [], DEV = dev, stackAddendum = stack\<rparr>"

section \<open>Notions used to state and prove the properties\<close>

text \<open>The two mutually recursive equations are unfolded by hand, where a proof needs them.\<close>

declare mapSingleChildIntoContext.simps [simp del]

declare mapIntoWithKeyPrefixInternal.simps [simp del]

subsection \<open>The pool invariant\<close>

text \<open>What \<open>releaseTraverseContext\<close> leaves of a context: no result array, no key prefix,
  no function, no bound context, count zero.\<close>

definition cleared :: "traverseContext \<Rightarrow> bool" where
  "cleared c \<longleftrightarrow>
     ctx_result c = None \<and> ctx_keyPrefix c = None \<and> ctx_func c = None \<and>
     ctx_context c = VNull \<and> ctx_count c = 0"

text \<open>The pool holds at most \<open>POOL_SIZE\<close> contexts, no context twice, and each of them is an
  object of the store that is cleared.\<close>

definition pool_ok :: "state \<Rightarrow> bool" where
  "pool_ok s \<longleftrightarrow>
     length (traverseContextPool s) \<le> POOL_SIZE \<and> distinct (traverseContextPool s) \<and>
     (\<forall>a \<in> set (traverseContextPool s). a < length (contexts s) \<and> cleared (contexts s ! a))"

text \<open>The contexts \<open>A\<close> are checked out: they exist and none of them is in the pool.\<close>

definition held :: "addr set \<Rightarrow> state \<Rightarrow> bool" where
  "held A s \<longleftrightarrow>
     pool_ok s \<and> (\<forall>a \<in> A. a < length (contexts s) \<and> a \<notin> set (traverseContextPool s))"

subsection \<open>The traversal as a list of leaves\<close>

text \<open>The values the callback is invoked with: null (also for undefined and booleans),
  strings, numbers, elements and portals.\<close>

fun renderable :: "val \<Rightarrow> bool" where
  "renderable VNull = True"
| "renderable (VString str) = True"
| "renderable (VNumber n) = True"
| "renderable (VElement e) = True"
| "renderable (VPortal e) = True"
| "renderable v = False"

text \<open>The name a leaf is passed to the callback with, and the error an invalid object
  raises, as \<open>traverseAllChildrenImpl\<close> computes them.\<close>

definition leafName :: "val \<Rightarrow> string \<Rightarrow> string" where
  "leafName child nameSoFar =
     (if nameSoFar = '''' then SEPARATOR @ getComponentKey child 0 else nameSoFar)"

definition invalidChild :: "bool \<Rightarrow> string \<Rightarrow> string \<Rightarrow> string list \<Rightarrow> error" where
  "invalidChild dev stack childrenString names =
     InvariantViolation ''Objects are not valid as a React child (found: %s).%s''
       [if childrenString = ''[object Object]''
        then ''object with keys {'' @ join '', '' names @ ''}''
        else childrenString,
        if dev
        then '' If you meant to render a collection of children, use an array '' @
             ''instead.'' @ stack
        else '''']"

text \<open>The leaves \<open>traverseAllChildrenImpl\<close> visits, in order and with their names, up to
  the first invalid object, and the error that object raises. \<open>trav_sim\<close> below proves that
  the traversal does exactly this.\<close>

fun visit :: "bool \<Rightarrow> string \<Rightarrow> val \<Rightarrow> string \<Rightarrow> (val \<times> string) list \<times> error option"
  and visits ::
    "bool \<Rightarrow> string \<Rightarrow> val list \<Rightarrow> nat \<Rightarrow> string \<Rightarrow> (val \<times> string) list \<times> error option"
where
  "visit dev stack (VArray xs) nameSoFar = visits dev stack xs 0 (nextNamePrefix nameSoFar)"
| "visit dev stack (VIterable m xs) nameSoFar = visits dev stack xs 0 (nextNamePrefix nameSoFar)"
| "visit dev stack (VObject k str names) nameSoFar = ([], Some (invalidChild dev stack str names))"
| "visit dev stack (VFunction f) nameSoFar = ([], None)"
| "visit dev stack VUndefined nameSoFar = ([(VNull, leafName VNull nameSoFar)], None)"
| "visit dev stack (VBool b) nameSoFar = ([(VNull, leafName VNull nameSoFar)], None)"
| "visit dev stack child nameSoFar = ([(child, leafName child nameSoFar)], None)"
| "visits dev stack [] i namePrefix = ([], None)"
| "visits dev stack (child # rest) i namePrefix =
     (case visit dev stack child (namePrefix @ getComponentKey child i) of
        (ls, Some e) \<Rightarrow> (ls, Some e)
      | (ls, None) \<Rightarrow>
          (case visits dev stack rest (Suc i) namePrefix of (ls', e) \<Rightarrow> (ls @ ls', e)))"

text \<open>The leaves of \<open>traverseAllChildren\<close>: a null or undefined root is not traversed.\<close>

definition leaves :: "bool \<Rightarrow> string \<Rightarrow> val \<Rightarrow> (val \<times> string) list \<times> error option" where
  "leaves dev stack T =
     (if T = VNull \<or> T = VUndefined then ([], None) else visit dev stack T '''')"

text \<open>A handler is what a callback does, seen from outside: given the leaf, its name and
  its index, it fails or pushes values. \<open>run\<close> is the handler along the leaves, stopping at
  the first failure; \<open>outcome\<close> adds the error of the invalid object that ends the list.\<close>

type_synonym handler = "val \<Rightarrow> string \<Rightarrow> nat \<Rightarrow> error + val list"

fun run :: "handler \<Rightarrow> (val \<times> string) list \<Rightarrow> nat \<Rightarrow> val list \<Rightarrow> error + val list" where
  "run h [] i acc = Inr acc"
| "run h ((child, name) # ls) i acc =
     (case h child name i of Inl e \<Rightarrow> Inl e | Inr ys \<Rightarrow> run h ls (Suc i) (acc @ ys))"

definition outcome ::
  "handler \<Rightarrow> (val \<times> string) list \<times> error option \<Rightarrow> nat \<Rightarrow> val list \<Rightarrow> error + val list" where
  "outcome h v i acc =
     (case run h (fst v) i acc of
        Inl e \<Rightarrow> Inl e
      | Inr acc' \<Rightarrow> (case snd v of Some e \<Rightarrow> Inl e | None \<Rightarrow> Inr acc'))"

definition flat :: "handler \<Rightarrow> bool \<Rightarrow> string \<Rightarrow> val \<Rightarrow> error + val list" where
  "flat h dev stack T =
     (if T = VNull \<or> T = VUndefined then Inr [] else outcome h (visit dev stack T '''') 0 [])"

definition tally :: "(val \<times> string) list \<times> error option \<Rightarrow> error + nat" where
  "tally v = (case snd v of Some e \<Rightarrow> Inl e | None \<Rightarrow> Inr (length (fst v)))"

text \<open>The handlers of the three callbacks: \<open>h_none\<close> for those that push nothing (count,
  for-each), \<open>h_id\<close> for the map callback under the identity transform with key prefix
  \<open>kp\<close>, \<open>h_map\<close> for the map callback under a transform \<open>f\<close>, whose array results are
  flattened by a nested traversal under the identity.\<close>

definition emit :: "string option \<Rightarrow> val \<Rightarrow> val \<Rightarrow> string \<Rightarrow> val list" where
  "emit keyPrefix child mappedChild childKey =
     (if mappedChild \<noteq> VNull \<and> mappedChild \<noteq> VUndefined
      then [rekey keyPrefix child mappedChild childKey] else [])"

definition h_none :: handler where
  "h_none child name i = Inr []"

definition h_id :: "string \<Rightarrow> handler" where
  "h_id kp child name i = Inr (emit (Some kp) child child name)"

definition h_map :: "bool \<Rightarrow> string \<Rightarrow> mapFunction \<Rightarrow> val \<Rightarrow> string \<Rightarrow> handler" where
  "h_map dev stack f cx kp child name i =
     (if isArray (f cx child i)
      then outcome (h_id (escapeUserProvidedKey name @ ''/''))
             (visit dev stack (f cx child i) '''') 0 []
      else Inr (emit (Some kp) child (f cx child i) name))"

subsection \<open>A callback against its handler\<close>

text \<open>
  \<open>refines cb tc Q I h dev stack\<close>: from a state where \<open>Q i acc\<close> holds (\<open>i\<close> leaves seen,
  \<open>acc\<close> pushed so far), the callback on a leaf fails exactly when the handler fails, with
  the same error and in a state where \<open>I\<close> holds, and otherwise pushes what the handler
  says and re-establishes \<open>Q\<close>. \<open>Q\<close> is not affected by the Map warning, implies \<open>I\<close> and
  fixes the build flag and the stack addendum. \<open>sim\<close> is the same statement for a whole
  traversal.
\<close>

definition refines ::
  "callback \<Rightarrow> addr option \<Rightarrow> (nat \<Rightarrow> val list \<Rightarrow> state \<Rightarrow> bool) \<Rightarrow> (state \<Rightarrow> bool) \<Rightarrow> handler
     \<Rightarrow> bool \<Rightarrow> string \<Rightarrow> bool" where
  "refines cb tc Q I h dev stack \<longleftrightarrow>
     (\<forall>l name i acc s. renderable l \<longrightarrow> Q i acc s \<longrightarrow>
        (case cb tc l name s of
           (Inl e, s') \<Rightarrow> h l name i = Inl e \<and> I s'
         | (Inr u, s') \<Rightarrow> (\<exists>ys. h l name i = Inr ys \<and> Q (Suc i) (acc @ ys) s')))
     \<and> (\<forall>i acc s w d. Q i acc s \<longrightarrow> Q i acc (s\<lparr>warnings := w, didWarnAboutMaps := d\<rparr>))
     \<and> (\<forall>i acc s. Q i acc s \<longrightarrow> I s \<and> DEV s = dev \<and> stackAddendum s = stack)"

definition sim ::
  "(nat \<Rightarrow> val list \<Rightarrow> state \<Rightarrow> bool) \<Rightarrow> (state \<Rightarrow> bool) \<Rightarrow> handler
     \<Rightarrow> (val \<times> string) list \<times> error option \<Rightarrow> nat \<Rightarrow> val list \<Rightarrow> nat
     \<Rightarrow> (error + nat) \<times> state \<Rightarrow> bool" where
  "sim Q I h v i acc cnt r =
     (case r of
        (Inl e, s') \<Rightarrow> outcome h v i acc = Inl e \<and> I s'
      | (Inr n, s') \<Rightarrow>
          n = cnt + length (fst v) \<and>
          (\<exists>acc'. outcome h v i acc = Inr acc' \<and> Q (i + length (fst v)) acc' s'))"

text \<open>
  The store during a map traversal that holds context \<open>a\<close>: the contexts \<open>A\<close> are checked
  out, \<open>a\<close> is as it was acquired (\<open>c0\<close>) but for its count, the other contexts of \<open>A\<close> are
  untouched (\<open>G\<close>), and the result array \<open>r\<close> is what it was (\<open>base\<close>) followed by what has
  been pushed. \<open>in_forEach\<close> is the store during a for-each traversal that holds context
  \<open>a\<close> while the contexts \<open>A\<close> are held by others; it has no array.
\<close>

definition in_map ::
  "addr set \<Rightarrow> addr \<Rightarrow> traverseContext \<Rightarrow> addr \<Rightarrow> val list \<Rightarrow> (addr \<Rightarrow> traverseContext)
     \<Rightarrow> bool \<Rightarrow> string \<Rightarrow> nat \<Rightarrow> val list \<Rightarrow> state \<Rightarrow> bool" where
  "in_map A a c0 r base G dev stack i acc s \<longleftrightarrow>
     held A s \<and> a \<in> A \<and> contexts s ! a = c0\<lparr>ctx_count := i\<rparr> \<and>
     (\<forall>b \<in> A. b \<noteq> a \<longrightarrow> contexts s ! b = G b) \<and>
     r < length (arrays s) \<and> arrays s ! r = base @ acc \<and>
     DEV s = dev \<and> stackAddendum s = stack"

definition in_forEach ::
  "addr set \<Rightarrow> addr \<Rightarrow> traverseContext \<Rightarrow> bool \<Rightarrow> string \<Rightarrow> nat \<Rightarrow> val list \<Rightarrow> state \<Rightarrow> bool" where
  "in_forEach A a c0 dev stack i acc s \<longleftrightarrow>
     held (insert a A) s \<and> contexts s ! a = c0\<lparr>ctx_count := i\<rparr> \<and>
     DEV s = dev \<and> stackAddendum s = stack \<and> acc = []"

subsection \<open>Notions of the claims\<close>

text \<open>The length of an array value.\<close>

fun arrayLength :: "val \<Rightarrow> nat" where
  "arrayLength (VArray xs) = length xs"
| "arrayLength v = 0"

text \<open>The number of leaves of a tree that are null, undefined or a boolean. A root that
  is null or undefined is not a leaf: no operation traverses it.\<close>

fun nulls :: "val \<Rightarrow> nat" and nullsIn :: "val list \<Rightarrow> nat" where
  "nulls VUndefined = 1"
| "nulls VNull = 1"
| "nulls (VBool b) = 1"
| "nulls (VArray xs) = nullsIn xs"
| "nulls (VIterable m xs) = nullsIn xs"
| "nulls v = 0"
| "nullsIn [] = 0"
| "nullsIn (x # xs) = nulls x + nullsIn xs"

definition nullLeaves :: "val \<Rightarrow> nat" where
  "nullLeaves T = (if T = VNull \<or> T = VUndefined then 0 else nulls T)"

text \<open>A single leaf: a value for which the traverser invokes the callback.\<close>

fun isLeaf :: "val \<Rightarrow> bool" where
  "isLeaf (VArray xs) = False"
| "isLeaf (VIterable m xs) = False"
| "isLeaf (VObject k str names) = False"
| "isLeaf (VFunction f) = False"
| "isLeaf v = True"

text \<open>A value without the key it was given, and an array of such values: what two
  outputs share when they differ in keys only.\<close>

fun eraseKey :: "val \<Rightarrow> val" where
  "eraseKey (VElement e) = VElement (e\<lparr>key := None\<rparr>)"
| "eraseKey v = v"

fun eraseKeys :: "val \<Rightarrow> val" where
  "eraseKeys (VArray xs) = VArray (map eraseKey xs)"
| "eraseKeys v = v"

text \<open>The first object of a tree, in traversal order, that is neither a leaf, an array
  nor an iterable: its string and its property names.\<close>

fun firstObject :: "val \<Rightarrow> (string \<times> string list) option"
  and firstObjectIn :: "val list \<Rightarrow> (string \<times> string list) option"
where
  "firstObject (VObject k str names) = Some (str, names)"
| "firstObject (VArray xs) = firstObjectIn xs"
| "firstObject (VIterable m xs) = firstObjectIn xs"
| "firstObject v = None"
| "firstObjectIn [] = None"
| "firstObjectIn (x # xs) =
     (case firstObject x of Some found \<Rightarrow> Some found | None \<Rightarrow> firstObjectIn xs)"

text \<open>
  Re-entrant use, where more contexts are live than the pool takes: an operation called
  from the callback of another acquires its context while its caller holds its own.
  \<open>nested n s\<close> is the state when \<open>n\<close> such calls are in flight from \<open>s\<close>, none of them
  released yet; \<open>unwound as s\<close> is the state when the contexts \<open>as\<close> have been released, in
  this order.
\<close>

fun nested :: "nat \<Rightarrow> state \<Rightarrow> state" where
  "nested 0 s = s"
| "nested (Suc n) s =
     nested n (snd (getPooledTraverseContext None None (Some (\<lambda>this c i. c)) VUndefined s))"

fun unwound :: "addr list \<Rightarrow> state \<Rightarrow> state" where
  "unwound [] s = s"
| "unwound (a # as) s = unwound as (releaseTraverseContext a s)"

section \<open>Auxiliary lemmas\<close>

subsection \<open>Strings\<close>

lemma replaceAll_concat:
  "replaceAll m f k = concat (map (\<lambda>c. if m c then f c else [c]) k)"
  by (induction k) simp_all

subsection \<open>The traversal visits the leaves\<close>

text \<open>The traversal with a callback that refines a handler does what the handler does along
  the leaves: \<open>trav_sim\<close>, by induction on the traversal.\<close>

lemma run_append:
  "run h (ls @ ls') i acc =
     (case run h ls i acc of Inl e \<Rightarrow> Inl e | Inr acc' \<Rightarrow> run h ls' (i + length ls) acc')"
  by (induction h ls i acc rule: run.induct) (simp_all split: sum.splits)

lemma refines_callback:
  assumes "refines cb tc Q I h dev stack" "renderable l" "Q i acc s" "cb tc l name s = (r, s')"
  shows "case r of Inl e \<Rightarrow> h l name i = Inl e \<and> I s'
         | Inr u \<Rightarrow> (\<exists>ys. h l name i = Inr ys \<and> Q (Suc i) (acc @ ys) s')"
proof -
  have "case cb tc l name s of
           (Inl e, s') \<Rightarrow> h l name i = Inl e \<and> I s'
         | (Inr u, s') \<Rightarrow> (\<exists>ys. h l name i = Inr ys \<and> Q (Suc i) (acc @ ys) s')"
    using assms(1)[unfolded refines_def, THEN conjunct1, rule_format, OF assms(2,3)] .
  then show ?thesis
    by (simp add: assms(4))
qed

lemma refines_warn:
  "refines cb tc Q I h dev stack \<Longrightarrow> Q i acc s \<Longrightarrow>
     Q i acc (s\<lparr>warnings := w, didWarnAboutMaps := d\<rparr>)"
  unfolding refines_def by blast

lemma refines_inv:
  "refines cb tc Q I h dev stack \<Longrightarrow> Q i acc s \<Longrightarrow> I s \<and> DEV s = dev \<and> stackAddendum s = stack"
  unfolding refines_def by blast

lemma invoke_sim:
  assumes "refines cb tc Q I h dev stack" "renderable l" "Q i acc s"
  shows "sim Q I h ([(l, leafName l nm)], None) i acc 0 (invokeCallback l nm cb tc s)"
proof -
  obtain r s' where c: "cb tc l (leafName l nm) s = (r, s')"
    by (cases "cb tc l (leafName l nm) s")
  from refines_callback[OF assms c] c show ?thesis
    by (cases r) (auto simp: sim_def invokeCallback_def outcome_def leafName_def)
qed

lemma trav_sim:
  "refines cb tc Q I h dev stack \<Longrightarrow> Q i acc s \<Longrightarrow>
     sim Q I h (visit dev stack T nm) i acc 0 (traverseAllChildrenImpl T nm cb tc s)"
  "refines cb tc Q I h dev stack \<Longrightarrow> Q i acc s \<Longrightarrow>
     sim Q I h (visits dev stack xs j pre) i acc cnt (traverseChildren xs j pre cb tc cnt s)"
proof (induction T nm cb tc s and xs j pre cb tc cnt s arbitrary: i acc and i acc
        rule: traverseAllChildrenImpl_traverseChildren.induct)
  case (8 xs nameSoFar callback traverseContext s)
  then show ?case by simp
next
  case (9 isEntries xs nameSoFar callback traverseContext s)
  define s1 where "s1 = (if DEV s \<and> isEntries
                then (warning (didWarnAboutMaps s)
                       (''Using Maps as children is unsupported and will likely yield '' @
                        ''unexpected results. Convert it to a sequence/iterable of keyed '' @
                        ''ReactElements instead.'') s)\<lparr>didWarnAboutMaps := True\<rparr>
                else s)"
  have w: "Q i acc (s\<lparr>warnings := w, didWarnAboutMaps := d\<rparr>)" for d w
    using refines_warn[OF 9(2,3)] .
  have "Q i acc (s\<lparr>didWarnAboutMaps := True\<rparr>)"
    using w[where d=True and w="warnings s"] by simp
  with w 9(3) have q1: "Q i acc s1"
    by (simp add: s1_def warning_def)
  have "sim Q I h (visits dev stack xs 0 (nextNamePrefix nameSoFar)) i acc 0
          (traverseChildren xs 0 (nextNamePrefix nameSoFar) callback traverseContext 0 s1)"
    using 9(1)[OF s1_def 9(2) q1] .
  moreover have "traverseAllChildrenImpl (VIterable isEntries xs) nameSoFar callback traverseContext s
      = traverseChildren xs 0 (nextNamePrefix nameSoFar) callback traverseContext 0 s1"
    by (simp add: s1_def Let_def)
  ultimately show ?case by simp
next
  case (10 k childrenString names nameSoFar callback traverseContext s)
  then show ?case 
    by (auto simp: sim_def outcome_def invalidChild_def dest: refines_inv)
next
  case (11 f nameSoFar callback traverseContext s)
  then show ?case by (auto simp: sim_def outcome_def dest: refines_inv)
next
  case (12 i namePrefix callback traverseContext subtreeCount s)
  then show ?case by (auto simp: sim_def outcome_def dest: refines_inv)
next
  case (13 child rest j namePrefix callback traverseContext subtreeCount s)
  let ?v = "visit dev stack child (namePrefix @ getComponentKey child j)"
  let ?r = "traverseAllChildrenImpl child (namePrefix @ getComponentKey child j) callback traverseContext s"
  have s1: "sim Q I h ?v i acc 0 ?r"
    using 13(1)[OF 13(3,4)] .
  show ?case
  proof (cases ?r)
    case (Pair res s')
    show ?thesis
    proof (cases res)
      case (Inl e)
      with Pair s1 show ?thesis
        by (auto simp: sim_def outcome_def run_append split: prod.splits sum.splits option.splits)
    next
      case (Inr n)
      with Pair s1 obtain acc' where
        n: "n = length (fst ?v)" and o: "outcome h ?v i acc = Inr acc'"
        and q: "Q (i + length (fst ?v)) acc' s'"
        by (auto simp: sim_def)
      have s2: "sim Q I h (visits dev stack rest (Suc j) namePrefix) (i + length (fst ?v)) acc'
                  (subtreeCount + n)
                  (traverseChildren rest (Suc j) namePrefix callback traverseContext (subtreeCount + n) s')"
        using 13(2)[OF Pair[symmetric] Inr 13(3) q] .
      from o have noerr: "snd ?v = None" and r1: "run h (fst ?v) i acc = Inr acc'"
        by (auto simp: outcome_def split: sum.splits option.splits)
      show ?thesis
        using s2 Pair Inr n noerr r1
        by (auto simp: sim_def outcome_def run_append add.assoc split: prod.splits sum.splits option.splits)
    qed
  qed
qed (simp_all add: invoke_sim)

subsection \<open>Acquiring and releasing a context\<close>

lemma held_mono: "held A s \<Longrightarrow> B \<subseteq> A \<Longrightarrow> held B s"
  unfolding held_def by blast

lemma held_empty: "held {} s = pool_ok s"
  unfolding held_def by simp

lemma held_warn: "held A s \<Longrightarrow> held A (s\<lparr>warnings := w, didWarnAboutMaps := d\<rparr>)"
  unfolding held_def pool_ok_def by simp

lemma held_arrays: "held A s \<Longrightarrow> held A (s\<lparr>arrays := x\<rparr>)"
  unfolding held_def pool_ok_def by simp

lemma held_update:
  assumes "held A s" "a \<in> A"
  shows "held A (s\<lparr>contexts := (contexts s)[a := c]\<rparr>)"
proof -
  have "a \<notin> set (traverseContextPool s)"
    using assms unfolding held_def by blast
  then have "\<forall>b \<in> set (traverseContextPool s). (contexts s)[a := c] ! b = contexts s ! b"
    by (metis nth_list_update_neq)
  with assms show ?thesis
    unfolding held_def pool_ok_def by simp
qed

lemma overwrite_all [simp]:
  "(c::traverseContext)\<lparr>ctx_result := res, ctx_keyPrefix := kp, ctx_func := f,
      ctx_context := cx, ctx_count := n\<rparr> =
   \<lparr>ctx_result = res, ctx_keyPrefix = kp, ctx_func = f, ctx_context = cx, ctx_count = n\<rparr>"
  by (cases c) simp

lemma getPooled_held:
  assumes h: "held A s"
    and g: "getPooledTraverseContext res kp f cx s = (a, s1)"
  shows "a \<notin> A \<and> held (insert a A) s1 \<and>
         contexts s1 ! a = \<lparr>ctx_result = res, ctx_keyPrefix = kp, ctx_func = f,
                             ctx_context = cx, ctx_count = 0\<rparr> \<and>
         (\<forall>b \<in> A. contexts s1 ! b = contexts s ! b) \<and>
         arrays s1 = arrays s \<and> DEV s1 = DEV s \<and> stackAddendum s1 = stackAddendum s"
proof (cases "traverseContextPool s = []")
  case True
  with g have a: "a = length (contexts s)"
    and s1: "s1 = s\<lparr>contexts := contexts s @
              [\<lparr>ctx_result = res, ctx_keyPrefix = kp, ctx_func = f,
                ctx_context = cx, ctx_count = 0\<rparr>]\<rparr>"
    by (auto simp: getPooledTraverseContext_def)
  from h have lt: "\<forall>b \<in> A. b < length (contexts s)"
    unfolding held_def by blast
  then have "a \<notin> A" using a by blast
  moreover have "held (insert a A) s1"
    using h True unfolding held_def pool_ok_def s1 a by (auto simp: nth_append)
  moreover have "\<forall>b \<in> A. contexts s1 ! b = contexts s ! b"
    using lt by (simp add: s1 nth_append)
  ultimately show ?thesis
    by (simp add: s1 a)
next
  case False
  define pool where "pool = traverseContextPool s"
  have pool: "pool = butlast pool @ [last pool]" "pool \<noteq> []"
    using False by (simp_all add: pool_def)
  from False g have a: "a = last pool"
    and s1: "s1 = s\<lparr>traverseContextPool := butlast pool,
                   contexts := (contexts s)[a :=
                     \<lparr>ctx_result = res, ctx_keyPrefix = kp, ctx_func = f,
                      ctx_context = cx, ctx_count = 0\<rparr>]\<rparr>"
    by (auto simp: getPooledTraverseContext_def Let_def pool_def)
  from h have d: "distinct pool" and len: "length pool \<le> POOL_SIZE"
    and inpool: "\<forall>b \<in> set pool. b < length (contexts s) \<and> cleared (contexts s ! b)"
    and out: "\<forall>b \<in> A. b < length (contexts s) \<and> b \<notin> set pool"
    unfolding held_def pool_ok_def pool_def by auto
  have ain: "a \<in> set pool" using a pool(2) by simp
  have anot: "a \<notin> set (butlast pool)"
    using d pool(1) a by (metis distinct_append disjoint_iff list.set_intros(1))
  have sub: "set (butlast pool) \<subseteq> set pool"
    by (metis in_set_butlastD subsetI)
  have "a \<notin> A" using ain out by blast
  moreover have "held (insert a A) s1"
    unfolding held_def pool_ok_def s1
    using d len inpool out ain anot sub
    by (auto simp: distinct_butlast nth_list_update)
  moreover have "\<forall>b \<in> A. contexts s1 ! b = contexts s ! b"
  proof
    fix b assume "b \<in> A"
    with out ain have "b \<noteq> a" by blast
    then show "contexts s1 ! b = contexts s ! b"
      by (simp add: s1)
  qed
  moreover have "contexts s1 ! a = \<lparr>ctx_result = res, ctx_keyPrefix = kp, ctx_func = f,
                             ctx_context = cx, ctx_count = 0\<rparr>"
    using inpool ain by (simp add: s1)
  ultimately show ?thesis
    by (simp add: s1)
qed

lemma release_held:
  assumes h: "held (insert a A) s" and na: "a \<notin> A"
  shows "held A (releaseTraverseContext a s) \<and>
         (\<forall>b \<in> A. contexts (releaseTraverseContext a s) ! b = contexts s ! b) \<and>
         arrays (releaseTraverseContext a s) = arrays s \<and>
         DEV (releaseTraverseContext a s) = DEV s \<and>
         stackAddendum (releaseTraverseContext a s) = stackAddendum s"
proof -
  from h have a: "a < length (contexts s)" "a \<notin> set (traverseContextPool s)"
    and p: "pool_ok s"
    and out: "\<forall>b \<in> A. b < length (contexts s) \<and> b \<notin> set (traverseContextPool s)"
    unfolding held_def by auto
  have ne: "\<forall>b \<in> A. b \<noteq> a" using na by blast
  have ne': "\<forall>b \<in> set (traverseContextPool s). b \<noteq> a" using a by blast
  show ?thesis
    using a p out ne ne'
    unfolding held_def pool_ok_def releaseTraverseContext_def Let_def cleared_def
    by (auto simp: nth_list_update)
qed

subsection \<open>The map callback\<close>

text \<open>The callback under the identity refines \<open>h_id\<close> at every depth, since what it maps a
  leaf to is never an array. From that, a nested \<open>mapIntoWithKeyPrefixInternal\<close> does what
  \<open>flat\<close> says, and so the callback under any transform refines \<open>h_map\<close> at every depth
  but 0.\<close>

lemma in_map_warn:
  "in_map A a c0 r base G dev stack i acc s \<Longrightarrow>
   in_map A a c0 r base G dev stack i acc (s\<lparr>warnings := w, didWarnAboutMaps := d\<rparr>)"
  unfolding in_map_def using held_warn[where A=A and s=s and w=w and d=d] by simp

lemma in_map_step:
  assumes q: "in_map A a c0 r base G dev stack i acc s"
  shows "in_map A a c0 r base G dev stack (Suc i) acc
           (s\<lparr>contexts := (contexts s)[a := (contexts s ! a)\<lparr>ctx_count := ctx_count (contexts s ! a) + 1\<rparr>]\<rparr>)"
    and "in_map A a c0 r base G dev stack (Suc i) (acc @ [x])
           (s\<lparr>contexts := (contexts s)[a := (contexts s ! a)\<lparr>ctx_count := ctx_count (contexts s ! a) + 1\<rparr>],
              arrays := (arrays s)[r := arrays s ! r @ [x]]\<rparr>)"
proof -
  from q have h: "held A s" and a: "a \<in> A" and c: "contexts s ! a = c0\<lparr>ctx_count := i\<rparr>"
    and r: "r < length (arrays s)"
    unfolding in_map_def by auto
  from h a have lt: "a < length (contexts s)"
    unfolding held_def by blast
  let ?c = "(contexts s ! a)\<lparr>ctx_count := ctx_count (contexts s ! a) + 1\<rparr>"
  have h1: "held A (s\<lparr>contexts := (contexts s)[a := ?c]\<rparr>)"
    using held_update[OF h a] .
  have h2: "held A (s\<lparr>contexts := (contexts s)[a := ?c], arrays := (arrays s)[r := arrays s ! r @ [x]]\<rparr>)"
    using held_arrays[OF h1] by simp
  have cc: "?c = c0\<lparr>ctx_count := Suc i\<rparr>"
    by (simp add: c)
  show "in_map A a c0 r base G dev stack (Suc i) acc (s\<lparr>contexts := (contexts s)[a := ?c]\<rparr>)"
    using q h1 lt unfolding in_map_def by (simp add: cc)
  show "in_map A a c0 r base G dev stack (Suc i) (acc @ [x])
           (s\<lparr>contexts := (contexts s)[a := ?c], arrays := (arrays s)[r := arrays s ! r @ [x]]\<rparr>)"
    using q h2 lt r unfolding in_map_def by (simp add: cc)
qed

lemma renderable_not_array: "renderable l \<Longrightarrow> \<not> isArray l"
  by (cases l) simp_all

lemma mapSingle_id_refines:
  assumes f: "ctx_func c0 = Some (\<lambda>this c i. c)"
    and res: "ctx_result c0 = Some r"
    and kp: "ctx_keyPrefix c0 = Some kp"
  shows "refines (mapSingleChildIntoContext d) (Some a) (in_map A a c0 r base G dev stack)
           (held A) (h_id kp) dev stack"
  unfolding refines_def
proof (intro conjI allI impI)
  fix l name i acc s
  assume l: "renderable l" and q: "in_map A a c0 r base G dev stack i acc s"
  from q have c: "contexts s ! a = c0\<lparr>ctx_count := i\<rparr>"
    unfolding in_map_def by blast
  note st = in_map_step[OF q]
  show "case mapSingleChildIntoContext d (Some a) l name s of
          (Inl e, s') \<Rightarrow> h_id kp l name i = Inl e \<and> held A s'
        | (Inr u, s') \<Rightarrow>
            \<exists>ys. h_id kp l name i = Inr ys \<and> in_map A a c0 r base G dev stack (Suc i) (acc @ ys) s'"
  proof (cases "l = VNull")
    case True
    then show ?thesis
      using st(1) by (simp add: mapSingleChildIntoContext.simps c f res kp h_id_def emit_def Let_def)
  next
    case False
    with l have "l \<noteq> VUndefined" "\<not> isArray l"
      by (auto simp: renderable_not_array)
    with False show ?thesis
      using st(2)[of "rekey (Some kp) l l name"]
      by (simp add: mapSingleChildIntoContext.simps c f res kp h_id_def emit_def Let_def)
  qed
next
  fix i acc s w d
  assume "in_map A a c0 r base G dev stack i acc s"
  then show "in_map A a c0 r base G dev stack i acc (s\<lparr>warnings := w, didWarnAboutMaps := d\<rparr>)"
    by (rule in_map_warn)
qed (simp_all add: in_map_def)

lemma in_map_start:
  assumes "held (insert a A) s1"
    and "contexts s1 ! a = c0" and "ctx_count c0 = 0"
    and "\<forall>b \<in> A. contexts s1 ! b = contexts s ! b"
    and "r < length (arrays s1)"
  shows "in_map (insert a A) a c0 r (arrays s1 ! r) (\<lambda>b. contexts s ! b) (DEV s1) (stackAddendum s1) 0 [] s1"
  using assms unfolding in_map_def by auto

lemma mapInto_flat:
  assumes R: "\<And>a A' base G.
      refines (mapSingleChildIntoContext d) (Some a)
        (in_map A' a \<lparr>ctx_result = Some r,
            ctx_keyPrefix = Some (case prefix of None \<Rightarrow> '''' | Some p \<Rightarrow> escapeUserProvidedKey p @ ''/''),
            ctx_func = Some f, ctx_context = cx, ctx_count = 0\<rparr> r base G dev stack)
        (held A') h dev stack"
    and h: "held A s" and r: "r < length (arrays s)"
    and dv: "DEV s = dev" "stackAddendum s = stack"
    and m: "mapIntoWithKeyPrefixInternal d T (Some r) prefix f cx s = (res, s')"
  shows "held A s' \<and>
         (case res of
            Inl e \<Rightarrow> flat h dev stack T = Inl e
          | Inr u \<Rightarrow>
              (\<exists>ys. flat h dev stack T = Inr ys \<and> arrays s' ! r = arrays s ! r @ ys \<and>
                    r < length (arrays s') \<and> (\<forall>b \<in> A. contexts s' ! b = contexts s ! b) \<and>
                    DEV s' = dev \<and> stackAddendum s' = stack))"
proof -
  let ?ep = "case prefix of None \<Rightarrow> '''' | Some p \<Rightarrow> escapeUserProvidedKey p @ ''/''"
  let ?c0 = "\<lparr>ctx_result = Some r, ctx_keyPrefix = Some ?ep, ctx_func = Some f,
              ctx_context = cx, ctx_count = 0\<rparr>"
  obtain a s1 where g: "getPooledTraverseContext (Some r) (Some ?ep) (Some f) cx s = (a, s1)"
    by (cases "getPooledTraverseContext (Some r) (Some ?ep) (Some f) cx s")
  from getPooled_held[OF h g] have na: "a \<notin> A" and h1: "held (insert a A) s1"
    and c1: "contexts s1 ! a = ?c0" and fr1: "\<forall>b \<in> A. contexts s1 ! b = contexts s ! b"
    and ar1: "arrays s1 = arrays s" and dv1: "DEV s1 = dev" "stackAddendum s1 = stack"
    using dv by auto
  let ?Q = "in_map (insert a A) a ?c0 r (arrays s ! r) (\<lambda>b. contexts s ! b) dev stack"
  have q0: "?Q 0 [] s1"
    using in_map_start[OF h1 c1 _ fr1] r ar1 dv1 by simp
  let ?cb = "\<lambda>bookKeeping child childKey s'. mapSingleChildIntoContext d bookKeeping child childKey s'"
  have m': "(res, s') =
     (case traverseAllChildren T ?cb (Some a) s1 of
        (Inl e, s2) \<Rightarrow> (Inl e, s2)
      | (Inr n, s2) \<Rightarrow> (Inr (), releaseTraverseContext a s2))"
    using m g by (simp add: mapIntoWithKeyPrefixInternal.simps)
  show ?thesis
  proof (cases "T = VNull \<or> T = VUndefined")
    case True
    then have "res = Inr ()" "s' = releaseTraverseContext a s1"
      using m' by (auto simp: traverseAllChildren_def)
    with release_held[OF h1 na] True fr1 ar1 dv1 r show ?thesis
      by (auto simp: flat_def)
  next
    case False
    then have t: "traverseAllChildren T ?cb (Some a) s1 = traverseAllChildrenImpl T '''' ?cb (Some a) s1"
      by (simp add: traverseAllChildren_def)
    have fl: "flat h dev stack T = outcome h (visit dev stack T '''') 0 []"
      using False by (simp add: flat_def)
    have sm: "sim ?Q (held (insert a A)) h (visit dev stack T '''') 0 [] 0
               (traverseAllChildrenImpl T '''' ?cb (Some a) s1)"
      using trav_sim(1)[OF R q0] .
    obtain r2 s2 where tr: "traverseAllChildrenImpl T '''' ?cb (Some a) s1 = (r2, s2)"
      by (cases "traverseAllChildrenImpl T '''' ?cb (Some a) s1")
    show ?thesis
    proof (cases r2)
      case (Inl e)
      with sm tr have "outcome h (visit dev stack T '''') 0 [] = Inl e" "held (insert a A) s2"
        by (auto simp: sim_def)
      moreover from m' t tr Inl have "res = Inl e" "s' = s2" by auto
      ultimately show ?thesis
        using fl held_mono[of "insert a A" s2 A] by auto
    next
      case (Inr n)
      with sm tr obtain ys where o: "outcome h (visit dev stack T '''') 0 [] = Inr ys"
        and q2: "?Q (0 + length (fst (visit dev stack T ''''))) ys s2"
        by (auto simp: sim_def)
      from m' t tr Inr have rs: "res = Inr ()" "s' = releaseTraverseContext a s2" by auto
      from q2 have h2: "held (insert a A) s2"
        and fr2: "\<forall>b \<in> A. b \<noteq> a \<longrightarrow> contexts s2 ! b = contexts s ! b"
        and a2: "r < length (arrays s2)" "arrays s2 ! r = arrays s ! r @ ys"
        and dv2: "DEV s2 = dev" "stackAddendum s2 = stack"
        unfolding in_map_def by auto
      from release_held[OF h2 na] fr2 na a2 dv2 rs o fl show ?thesis
        by auto
    qed
  qed
qed

lemma mapSingle_refines:
  assumes f: "ctx_func c0 = Some f" and cx: "ctx_context c0 = cx"
    and res: "ctx_result c0 = Some r" and kp: "ctx_keyPrefix c0 = Some kp"
  shows "refines (mapSingleChildIntoContext (Suc d)) (Some a) (in_map A a c0 r base G dev stack)
           (held A) (h_map dev stack f cx kp) dev stack"
  unfolding refines_def
proof (intro conjI allI impI)
  fix l name i acc s
  assume l: "renderable l" and q: "in_map A a c0 r base G dev stack i acc s"
  from q have c: "contexts s ! a = c0\<lparr>ctx_count := i\<rparr>"
    unfolding in_map_def by blast
  note st = in_map_step[OF q]
  define m where "m = f cx l i"
  define s1 where "s1 = s\<lparr>contexts := (contexts s)[a := (contexts s ! a)\<lparr>ctx_count := ctx_count (contexts s ! a) + 1\<rparr>]\<rparr>"
  have q1: "in_map A a c0 r base G dev stack (Suc i) acc s1"
    using st(1) by (simp add: s1_def)
  show "case mapSingleChildIntoContext (Suc d) (Some a) l name s of
          (Inl e, s') \<Rightarrow> h_map dev stack f cx kp l name i = Inl e \<and> held A s'
        | (Inr u, s') \<Rightarrow>
            \<exists>ys. h_map dev stack f cx kp l name i = Inr ys \<and>
                 in_map A a c0 r base G dev stack (Suc i) (acc @ ys) s'"
  proof (cases "isArray m")
    case True
    have eq: "mapSingleChildIntoContext (Suc d) (Some a) l name s =
              mapIntoWithKeyPrefixInternal d m (Some r) (Some name) (\<lambda>this c i. c) VUndefined s1"
      using True by (simp add: mapSingleChildIntoContext.simps c f cx res kp Let_def m_def s1_def)
    obtain rs s' where mi: "mapIntoWithKeyPrefixInternal d m (Some r) (Some name) (\<lambda>this c i. c) VUndefined s1 = (rs, s')"
      by (cases "mapIntoWithKeyPrefixInternal d m (Some r) (Some name) (\<lambda>this c i. c) VUndefined s1")
    from q1 have h1: "held A s1" and r1: "r < length (arrays s1)"
      and dv1: "DEV s1 = dev" "stackAddendum s1 = stack"
      and a1: "a \<in> A" "contexts s1 ! a = c0\<lparr>ctx_count := Suc i\<rparr>"
      and o1: "\<forall>b \<in> A. b \<noteq> a \<longrightarrow> contexts s1 ! b = G b"
      and ar1: "arrays s1 ! r = base @ acc"
      unfolding in_map_def by auto
    have post: "held A s' \<and>
         (case rs of
            Inl e \<Rightarrow> flat (h_id (escapeUserProvidedKey name @ ''/'')) dev stack m = Inl e
          | Inr u \<Rightarrow>
              (\<exists>ys. flat (h_id (escapeUserProvidedKey name @ ''/'')) dev stack m = Inr ys \<and>
                    arrays s' ! r = arrays s1 ! r @ ys \<and>
                    r < length (arrays s') \<and> (\<forall>b \<in> A. contexts s' ! b = contexts s1 ! b) \<and>
                    DEV s' = dev \<and> stackAddendum s' = stack))"
      by (rule mapInto_flat[OF _ h1 r1 dv1 mi]) (simp add: mapSingle_id_refines)
    have fl: "flat (h_id (escapeUserProvidedKey name @ ''/'')) dev stack m =
              h_map dev stack f cx kp l name i"
      using True by (auto simp: flat_def h_map_def m_def)
    show ?thesis
    proof (cases rs)
      case (Inl e)
      with post fl eq mi show ?thesis by simp
    next
      case (Inr u)
      with post obtain ys where
        o: "flat (h_id (escapeUserProvidedKey name @ ''/'')) dev stack m = Inr ys"
        and p: "held A s'" "arrays s' ! r = arrays s1 ! r @ ys" "r < length (arrays s')"
          "\<forall>b \<in> A. contexts s' ! b = contexts s1 ! b" "DEV s' = dev" "stackAddendum s' = stack"
        by auto
      have "in_map A a c0 r base G dev stack (Suc i) (acc @ ys) s'"
        unfolding in_map_def using p a1 o1 ar1 by auto
      with o fl eq mi Inr show ?thesis by simp
    qed
  next
    case False
    show ?thesis
    proof (cases "m = VNull \<or> m = VUndefined")
      case True
      then show ?thesis
        using st(1) False
        by (auto simp: mapSingleChildIntoContext.simps c f cx res kp h_map_def emit_def Let_def m_def)
    next
      case nn: False
      then show ?thesis
        using st(2)[of "rekey (Some kp) l m name"] False
        by (auto simp: mapSingleChildIntoContext.simps c f cx res kp h_map_def emit_def Let_def m_def)
    qed
  qed
next
  fix i acc s w d
  assume "in_map A a c0 r base G dev stack i acc s"
  then show "in_map A a c0 r base G dev stack i acc (s\<lparr>warnings := w, didWarnAboutMaps := d\<rparr>)"
    by (rule in_map_warn)
qed (simp_all add: in_map_def)

subsection \<open>The four operations\<close>

lemma flat_leaves: "flat h dev stack T = outcome h (leaves dev stack T) 0 []"
  by (simp add: flat_def leaves_def outcome_def)

lemma run_h_none: "run h_none ls i acc = Inr acc"
  by (induction ls arbitrary: i acc) (auto simp: h_none_def)

lemma outcome_h_none:
  "outcome h_none v i acc = (case snd v of Some e \<Rightarrow> Inl e | None \<Rightarrow> Inr acc)"
  by (simp add: outcome_def run_h_none)

lemma count_refines:
  "refines (\<lambda>bookKeeping child name s'. (Inr (), s')) None
     (\<lambda>i acc s. held A s \<and> DEV s = dev \<and> stackAddendum s = stack \<and> acc = [])
     (held A) h_none dev stack"
  unfolding refines_def using held_warn[of A] by (auto simp: h_none_def)

lemma countChildren_leaves:
  assumes p: "held A s" and c: "countChildren T s = (res, s')"
  shows "held A s' \<and> res = tally (leaves (DEV s) (stackAddendum s) T)"
proof (cases "T = VNull \<or> T = VUndefined")
  case True
  with p c show ?thesis
    by (auto simp: countChildren_def traverseAllChildren_def leaves_def tally_def)
next
  case False
  let ?cb = "\<lambda>bookKeeping child name s'. (Inr (), s')"
  let ?v = "visit (DEV s) (stackAddendum s) T ''''"
  have c': "traverseAllChildrenImpl T '''' ?cb None s = (res, s')"
    using c False by (simp add: countChildren_def traverseAllChildren_def)
  have "sim (\<lambda>i acc s'. held A s' \<and> DEV s' = DEV s \<and> stackAddendum s' = stackAddendum s \<and> acc = [])
          (held A) h_none ?v 0 [] 0 (traverseAllChildrenImpl T '''' ?cb None s)"
    by (rule trav_sim(1)[OF count_refines]) (simp add: p)
  then show ?thesis
    using False unfolding c' sim_def
    by (cases res) (auto simp: outcome_h_none tally_def leaves_def split: option.splits)
qed

lemma forEach_refines:
  assumes f: "ctx_func c0 = Some f"
  shows "refines forEachSingleChild (Some a) (in_forEach A a c0 dev stack) (held (insert a A)) h_none dev stack"
  unfolding refines_def
proof (intro conjI allI impI)
  fix l name i acc s
  assume q: "in_forEach A a c0 dev stack i acc s"
  then have h: "held (insert a A) s" and c: "contexts s ! a = c0\<lparr>ctx_count := i\<rparr>"
    unfolding in_forEach_def by auto
  from h have lt: "a < length (contexts s)"
    unfolding held_def by blast
  have "held (insert a A) (s\<lparr>contexts := (contexts s)[a := c0\<lparr>ctx_count := Suc i\<rparr>]\<rparr>)"
    using held_update[OF h, of a] by simp
  then show "case forEachSingleChild (Some a) l name s of
          (Inl e, s') \<Rightarrow> h_none l name i = Inl e \<and> held (insert a A) s'
        | (Inr u, s') \<Rightarrow>
            \<exists>ys. h_none l name i = Inr ys \<and> in_forEach A a c0 dev stack (Suc i) (acc @ ys) s'"
    using q lt by (simp add: forEachSingleChild_def c f Let_def h_none_def in_forEach_def)
next
  fix i acc s w d
  assume "in_forEach A a c0 dev stack i acc s"
  then show "in_forEach A a c0 dev stack i acc (s\<lparr>warnings := w, didWarnAboutMaps := d\<rparr>)"
    unfolding in_forEach_def using held_warn[where A="insert a A" and s=s and w=w and d=d] by simp
qed (simp_all add: in_forEach_def)

lemma forEachChildren_leaves:
  assumes p: "held A s" and c: "forEachChildren T f cx s = (res, s')"
  shows "held A s' \<and>
         res = (if T = VNull \<or> T = VUndefined then Inr T
                else case snd (leaves (DEV s) (stackAddendum s) T) of
                       Some e \<Rightarrow> Inl e | None \<Rightarrow> Inr VUndefined)"
proof (cases "T = VNull \<or> T = VUndefined")
  case True
  with p c show ?thesis
    by (auto simp: forEachChildren_def)
next
  case False
  let ?c0 = "\<lparr>ctx_result = None, ctx_keyPrefix = None, ctx_func = Some f,
              ctx_context = cx, ctx_count = 0\<rparr>"
  let ?v = "visit (DEV s) (stackAddendum s) T ''''"
  obtain a s1 where g: "getPooledTraverseContext None None (Some f) cx s = (a, s1)"
    by (cases "getPooledTraverseContext None None (Some f) cx s")
  from getPooled_held[OF p g] have na: "a \<notin> A" and h1: "held (insert a A) s1"
    and c1: "contexts s1 ! a = ?c0" and dv1: "DEV s1 = DEV s" "stackAddendum s1 = stackAddendum s"
    by auto
  have q0: "in_forEach A a ?c0 (DEV s) (stackAddendum s) 0 [] s1"
    using h1 c1 dv1 by (simp add: in_forEach_def)
  have sm: "sim (in_forEach A a ?c0 (DEV s) (stackAddendum s)) (held (insert a A)) h_none ?v 0 [] 0
          (traverseAllChildrenImpl T '''' forEachSingleChild (Some a) s1)"
    by (rule trav_sim(1)[OF forEach_refines q0]) simp
  obtain r2 s2 where tr: "traverseAllChildrenImpl T '''' forEachSingleChild (Some a) s1 = (r2, s2)"
    by (cases "traverseAllChildrenImpl T '''' forEachSingleChild (Some a) s1")
  have c': "(res, s') = (case r2 of Inl e \<Rightarrow> (Inl e, s2)
                         | Inr n \<Rightarrow> (Inr VUndefined, releaseTraverseContext a s2))"
    using c g tr False by (simp add: forEachChildren_def traverseAllChildren_def split: sum.splits)
  show ?thesis
  proof (cases r2)
    case (Inl e)
    with sm tr have "snd ?v = Some e" "held (insert a A) s2"
      by (auto simp: sim_def outcome_h_none split: option.splits)
    with c' Inl False held_mono[of "insert a A" s2 A] show ?thesis
      by (auto simp: leaves_def)
  next
    case (Inr n)
    with sm tr have "snd ?v = None" "held (insert a A) s2"
      by (auto simp: sim_def outcome_h_none in_forEach_def split: option.splits)
    with c' Inr False release_held[of a A s2] na show ?thesis
      by (auto simp: leaves_def)
  qed
qed

lemma toArray_leaves:
  assumes p: "held A s" and c: "toArray d T s = (res, s')"
  shows "held A s' \<and>
         res = map_sum id VArray (outcome (h_id '''') (leaves (DEV s) (stackAddendum s) T) 0 [])"
proof -
  let ?r = "length (arrays s)"
  let ?s1 = "s\<lparr>arrays := arrays s @ [[]]\<rparr>"
  obtain rs s2 where m: "mapIntoWithKeyPrefixInternal d T (Some ?r) None (\<lambda>this child i. child) VUndefined ?s1 = (rs, s2)"
    by (cases "mapIntoWithKeyPrefixInternal d T (Some ?r) None (\<lambda>this child i. child) VUndefined ?s1")
  have h1: "held A ?s1"
    using held_arrays[OF p] .
  have post: "held A s2 \<and>
         (case rs of
            Inl e \<Rightarrow> flat (h_id '''') (DEV s) (stackAddendum s) T = Inl e
          | Inr u \<Rightarrow>
              (\<exists>ys. flat (h_id '''') (DEV s) (stackAddendum s) T = Inr ys \<and>
                    arrays s2 ! ?r = arrays ?s1 ! ?r @ ys \<and>
                    ?r < length (arrays s2) \<and> (\<forall>b \<in> A. contexts s2 ! b = contexts ?s1 ! b) \<and>
                    DEV s2 = DEV s \<and> stackAddendum s2 = stackAddendum s))"
    by (rule mapInto_flat[OF _ h1 _ _ _ m]) (simp_all add: mapSingle_id_refines)
  have c': "(res, s') = (case rs of Inl e \<Rightarrow> (Inl e, s2) | Inr u \<Rightarrow> (Inr (VArray (arrays s2 ! ?r)), s2))"
    using c m by (simp add: toArray_def Let_def split: sum.splits)
  show ?thesis
    using post c' by (cases rs) (auto simp: flat_leaves)
qed

lemma mapChildren_leaves:
  assumes p: "held A s" and c: "mapChildren (Suc d) T f cx s = (res, s')"
  shows "held A s' \<and>
         res = (if T = VNull \<or> T = VUndefined then Inr T
                else map_sum id VArray
                       (outcome (h_map (DEV s) (stackAddendum s) f cx '''')
                          (leaves (DEV s) (stackAddendum s) T) 0 []))"
proof (cases "T = VNull \<or> T = VUndefined")
  case True
  with p c show ?thesis
    by (auto simp: mapChildren_def)
next
  case False
  let ?r = "length (arrays s)"
  let ?s1 = "s\<lparr>arrays := arrays s @ [[]]\<rparr>"
  let ?h = "h_map (DEV s) (stackAddendum s) f cx ''''"
  obtain rs s2 where m: "mapIntoWithKeyPrefixInternal (Suc d) T (Some ?r) None f cx ?s1 = (rs, s2)"
    by (cases "mapIntoWithKeyPrefixInternal (Suc d) T (Some ?r) None f cx ?s1")
  have h1: "held A ?s1"
    using held_arrays[OF p] .
  have post: "held A s2 \<and>
         (case rs of
            Inl e \<Rightarrow> flat ?h (DEV s) (stackAddendum s) T = Inl e
          | Inr u \<Rightarrow>
              (\<exists>ys. flat ?h (DEV s) (stackAddendum s) T = Inr ys \<and>
                    arrays s2 ! ?r = arrays ?s1 ! ?r @ ys \<and>
                    ?r < length (arrays s2) \<and> (\<forall>b \<in> A. contexts s2 ! b = contexts ?s1 ! b) \<and>
                    DEV s2 = DEV s \<and> stackAddendum s2 = stackAddendum s))"
    by (rule mapInto_flat[OF _ h1 _ _ _ m]) (simp_all add: mapSingle_refines)
  have c': "(res, s') = (case rs of Inl e \<Rightarrow> (Inl e, s2) | Inr u \<Rightarrow> (Inr (VArray (arrays s2 ! ?r)), s2))"
    using c m False by (simp add: mapChildren_def Let_def split: sum.splits)
  show ?thesis
    using post c' False by (cases rs) (auto simp: flat_leaves)
qed

subsection \<open>Results of the operations\<close>

text \<open>What each operation returns from a state whose pool is in order, in terms of the
  leaves of the tree.\<close>

lemma pool_ok_init: "pool_ok (init dev stack)"
  by (simp add: pool_ok_def init_def)

lemma visit_renderable:
  "(l, k) \<in> set (fst (visit dev stack T nm)) \<Longrightarrow> renderable l"
  "(l, k) \<in> set (fst (visits dev stack xs j pre)) \<Longrightarrow> renderable l"
  by (induction dev stack T nm and dev stack xs j pre rule: visit_visits.induct)
     (auto split: prod.splits option.splits)

lemma leaves_renderable: "(l, k) \<in> set (fst (leaves dev stack T)) \<Longrightarrow> renderable l"
  by (auto simp: leaves_def visit_renderable split: if_splits)

lemma run_Inr:
  "(\<And>l k i. (l, k) \<in> set ls \<Longrightarrow> h l k i = Inr (g l k)) \<Longrightarrow>
   run h ls i acc = Inr (acc @ concat (map (\<lambda>(l, k). g l k) ls))"
proof (induction ls arbitrary: i acc)
  case Nil
  then show ?case by simp
next
  case (Cons x ls)
  obtain l k where x: "x = (l, k)" by (cases x)
  have "h l k i = Inr (g l k)" using Cons.prems[of l k i] x by simp
  moreover have "run h ls (Suc i) (acc @ g l k) = Inr ((acc @ g l k) @ concat (map (\<lambda>(l, k). g l k) ls))"
    by (rule Cons.IH) (simp add: Cons.prems)
  ultimately show ?case by (simp add: x)
qed

lemma outcome_h_id:
  "outcome (h_id kp) v i acc =
     (case snd v of
        Some e \<Rightarrow> Inl e
      | None \<Rightarrow> Inr (acc @ concat (map (\<lambda>(l, k). emit (Some kp) l l k) (fst v))))"
proof -
  have "run (h_id kp) (fst v) i acc = Inr (acc @ concat (map (\<lambda>(l, k). emit (Some kp) l l k) (fst v)))"
    by (rule run_Inr) (simp add: h_id_def)
  then show ?thesis by (simp add: outcome_def)
qed

lemma toArray_result:
  assumes "pool_ok s"
  shows "fst (toArray d T s) =
     (case snd (leaves (DEV s) (stackAddendum s) T) of
        Some e \<Rightarrow> Inl e
      | None \<Rightarrow> Inr (VArray (concat (map (\<lambda>(l, k). emit (Some '''') l l k)
                                         (fst (leaves (DEV s) (stackAddendum s) T))))))"
  using toArray_leaves[OF assms[folded held_empty], of d T "fst (toArray d T s)" "snd (toArray d T s)"]
  by (simp add: outcome_h_id split: option.splits)

lemma countChildren_result:
  assumes "pool_ok s"
  shows "fst (countChildren T s) = tally (leaves (DEV s) (stackAddendum s) T)"
  using countChildren_leaves[OF assms[folded held_empty], of T "fst (countChildren T s)" "snd (countChildren T s)"]
  by simp

lemma mapChildren_result:
  assumes "pool_ok s"
  shows "fst (mapChildren (Suc d) T f cx s) =
         (if T = VNull \<or> T = VUndefined then Inr T
          else map_sum id VArray
                 (outcome (h_map (DEV s) (stackAddendum s) f cx '''')
                    (leaves (DEV s) (stackAddendum s) T) 0 []))"
  using mapChildren_leaves[OF assms[folded held_empty], of d T f cx "fst (mapChildren (Suc d) T f cx s)"
          "snd (mapChildren (Suc d) T f cx s)"]
  by simp

lemma forEachChildren_result:
  assumes "pool_ok s"
  shows "fst (forEachChildren T f cx s) =
         (if T = VNull \<or> T = VUndefined then Inr T
          else case snd (leaves (DEV s) (stackAddendum s) T) of
                 Some e \<Rightarrow> Inl e | None \<Rightarrow> Inr VUndefined)"
  using forEachChildren_leaves[OF assms[folded held_empty], of T f cx "fst (forEachChildren T f cx s)"
          "snd (forEachChildren T f cx s)"]
  by simp

subsection \<open>Leaves and outputs of particular trees\<close>

lemma rekey_same:
  "rekey (Some kp) (VElement e) (VElement e) name = VElement (e\<lparr>key := Some (kp @ name)\<rparr>)"
  by (simp add: rekey_def split: option.splits)

lemma emit_same_length:
  "renderable l \<Longrightarrow> length (emit kp l l k) = (if l = VNull then 0 else 1)"
  by (cases l) (simp_all add: emit_def)

lemma length_emits:
  "(\<And>l k. (l, k) \<in> set ls \<Longrightarrow> renderable l) \<Longrightarrow>
   length (concat (map (\<lambda>(l, k). emit kp l l k) ls)) + length (filter (\<lambda>(l, k). l = VNull) ls)
     = length ls"
proof (induction ls)
  case Nil
  then show ?case by simp
next
  case (Cons x ls)
  obtain l k where x: "x = (l, k)" by (cases x)
  have "renderable l" using Cons.prems[of l k] x by simp
  moreover have "length (concat (map (\<lambda>(l, k). emit kp l l k) ls)) +
      length (filter (\<lambda>(l, k). l = VNull) ls) = length ls"
  proof (rule Cons.IH)
    fix l' k' assume "(l', k') \<in> set ls"
    then show "renderable l'" using Cons.prems[of l' k'] by simp
  qed
  ultimately show ?case
    by (simp add: x emit_same_length)
qed

lemma nulls_visit:
  "snd (visit dev stack T nm) = None \<Longrightarrow>
     length (filter (\<lambda>(l, k). l = VNull) (fst (visit dev stack T nm))) = nulls T"
  "snd (visits dev stack xs j pre) = None \<Longrightarrow>
     length (filter (\<lambda>(l, k). l = VNull) (fst (visits dev stack xs j pre))) = nullsIn xs"
  by (induction dev stack T nm and dev stack xs j pre rule: visit_visits.induct)
     (auto split: prod.splits option.splits)

lemma nulls_leaves:
  "snd (leaves dev stack T) = None \<Longrightarrow>
     length (filter (\<lambda>(l, k). l = VNull) (fst (leaves dev stack T))) = nullLeaves T"
  by (auto simp: leaves_def nullLeaves_def nulls_visit)

lemma visit_leaf:
  "isLeaf v \<Longrightarrow> nm \<noteq> '''' \<Longrightarrow>
     visit dev stack v nm = ([(if renderable v then v else VNull, nm)], None)"
  by (cases v) (simp_all add: leafName_def)

lemma leaves_singleton:
  "isLeaf v \<Longrightarrow>
     leaves dev stack (VArray [v]) =
       ([(if renderable v then v else VNull, SEPARATOR @ getComponentKey v 0)], None)"
  by (simp add: leaves_def nextNamePrefix_def visit_leaf SEPARATOR_def)

lemma leaves_leaf:
  "isLeaf v \<Longrightarrow>
     leaves dev stack v =
       (if v = VNull \<or> v = VUndefined then ([], None)
        else ([(if renderable v then v else VNull,
                SEPARATOR @ getComponentKey (if renderable v then v else VNull) 0)], None))"
  by (cases v) (simp_all add: leaves_def leafName_def)

lemma renderable_isLeaf: "renderable l \<Longrightarrow> isLeaf l"
  by (cases l) simp_all

lemma h_map_wrap:
  assumes "renderable l"
  shows "h_map dev stack (\<lambda>this x i. VArray [x]) cx kp l k i =
         Inr (emit (Some (escapeUserProvidedKey k @ ''/'')) l l (SEPARATOR @ getComponentKey l 0))"
proof -
  have "visit dev stack (VArray [l]) '''' = ([(l, SEPARATOR @ getComponentKey l 0)], None)"
    using assms by (simp add: nextNamePrefix_def visit_leaf renderable_isLeaf SEPARATOR_def)
  then show ?thesis
    by (simp add: h_map_def outcome_h_id)
qed

lemma h_map_identity:
  "renderable l \<Longrightarrow> h_map dev stack (\<lambda>this x i. x) cx kp l k i = Inr (emit (Some kp) l l k)"
  by (simp add: h_map_def renderable_not_array)

lemma eraseKey_emit:
  "renderable l \<Longrightarrow> map eraseKey (emit (Some kp) l l k) = (if l = VNull then [] else [eraseKey l])"
  by (cases l) (simp_all add: emit_def rekey_same, simp_all add: rekey_def)

lemma eraseKey_emits:
  "(\<And>l k. (l, k) \<in> set ls \<Longrightarrow> renderable l) \<Longrightarrow>
   map eraseKey (concat (map (\<lambda>(l, k). emit (Some (p l k)) l l (q l k)) ls)) =
   concat (map (\<lambda>(l, k). if l = VNull then [] else [eraseKey l]) ls)"
proof (induction ls)
  case Nil
  then show ?case by simp
next
  case (Cons x ls)
  obtain l k where x: "x = (l, k)" by (cases x)
  have "renderable l" using Cons.prems[of l k] x by simp
  moreover have "map eraseKey (concat (map (\<lambda>(l, k). emit (Some (p l k)) l l (q l k)) ls)) =
      concat (map (\<lambda>(l, k). if l = VNull then [] else [eraseKey l]) ls)"
  proof (rule Cons.IH)
    fix l' k' assume "(l', k') \<in> set ls"
    then show "renderable l'" using Cons.prems[of l' k'] by simp
  qed
  ultimately show ?case
    by (simp add: x eraseKey_emit)
qed

subsection \<open>Errors\<close>

lemma firstObject_visit:
  "snd (visit dev stack T nm) =
     map_option (\<lambda>(str, names). invalidChild dev stack str names) (firstObject T)"
  "snd (visits dev stack xs j pre) =
     map_option (\<lambda>(str, names). invalidChild dev stack str names) (firstObjectIn xs)"
  by (induction dev stack T nm and dev stack xs j pre rule: visit_visits.induct)
     (auto split: prod.splits option.splits)

lemma firstObject_leaves:
  "firstObject T = Some (str, names) \<Longrightarrow>
     snd (leaves dev stack T) = Some (invalidChild dev stack str names)"
  by (cases T) (simp_all add: leaves_def firstObject_visit)

lemma visit_error:
  "snd (visit dev stack T nm) = Some e \<Longrightarrow> \<exists>str names. e = invalidChild dev stack str names"
  by (auto simp: firstObject_visit)

lemma h_map_error:
  assumes "h_map dev stack f cx kp l k i = Inl e"
  shows "\<exists>str names. e = invalidChild dev stack str names"
proof -
  from assms have "snd (visit dev stack (f cx l i) '''') = Some e"
    by (auto simp: h_map_def outcome_h_id split: if_splits option.splits)
  then show ?thesis by (rule visit_error)
qed

lemma run_h_map_error:
  "run (h_map dev stack f cx kp) ls i acc = Inl e \<Longrightarrow>
     \<exists>str names. e = invalidChild dev stack str names"
proof (induction ls arbitrary: i acc)
  case Nil
  then show ?case by simp
next
  case (Cons x ls)
  obtain l k where x: "x = (l, k)" by (cases x)
  show ?case
  proof (cases "h_map dev stack f cx kp l k i")
    case (Inl e')
    with Cons.prems x have "e' = e" by simp
    with Inl show ?thesis using h_map_error by blast
  next
    case (Inr ys)
    with Cons.prems x have "run (h_map dev stack f cx kp) ls (Suc i) (acc @ ys) = Inl e" by simp
    then show ?thesis by (rule Cons.IH)
  qed
qed

lemma outcome_h_map_error:
  assumes "snd v = Some (invalidChild dev stack str names)"
  shows "\<exists>str' names'. outcome (h_map dev stack f cx kp) v i acc =
           Inl (invalidChild dev stack str' names')"
proof (cases "run (h_map dev stack f cx kp) (fst v) i acc")
  case (Inl e)
  with run_h_map_error[OF Inl] show ?thesis
    by (auto simp: outcome_def)
next
  case (Inr ys)
  with assms show ?thesis
    by (auto simp: outcome_def)
qed

lemma run_total:
  "(\<And>l k i. (l, k) \<in> set ls \<Longrightarrow> \<exists>ys. h l k i = Inr ys) \<Longrightarrow> \<exists>acc'. run h ls i acc = Inr acc'"
proof (induction ls arbitrary: i acc)
  case Nil
  then show ?case by simp
next
  case (Cons x ls)
  obtain l k where x: "x = (l, k)" by (cases x)
  from Cons.prems[of l k i] x obtain ys where "h l k i = Inr ys" by auto
  moreover have "\<exists>acc'. run h ls (Suc i) (acc @ ys) = Inr acc'"
  proof (rule Cons.IH)
    fix l' k' i' assume "(l', k') \<in> set ls"
    then show "\<exists>ys. h l' k' i' = Inr ys" using Cons.prems[of l' k' i'] by simp
  qed
  ultimately show ?case by (simp add: x)
qed

lemma outcome_h_map_no_array:
  assumes "\<forall>c i. renderable c \<longrightarrow> \<not> isArray (f cx c i)" and "snd v = Some e"
    and "\<And>l k. (l, k) \<in> set (fst v) \<Longrightarrow> renderable l"
  shows "outcome (h_map dev stack f cx kp) v i acc = Inl e"
proof -
  have "\<exists>acc'. run (h_map dev stack f cx kp) (fst v) i acc = Inr acc'"
  proof (rule run_total)
    fix l k j assume "(l, k) \<in> set (fst v)"
    then have "renderable l" by (rule assms(3))
    then show "\<exists>ys. h_map dev stack f cx kp l k j = Inr ys"
      using assms(1) by (simp add: h_map_def)
  qed
  with assms(2) show ?thesis
    by (auto simp: outcome_def)
qed

subsection \<open>The depth bound\<close>

text \<open>From depth 1 on, \<open>mapChildren\<close> never meets the bound and its result does not depend
  on it: the nested traversal runs under the identity, which returns no array.\<close>

lemma mapChildren_never_DepthExceeded:
  assumes "pool_ok s"
  shows "fst (mapChildren (Suc d) T f cx s) \<noteq> Inl DepthExceeded"
    and "fst (mapChildren (Suc d) T f cx s) = fst (mapChildren (Suc 0) T f cx s)"
proof -
  let ?h = "h_map (DEV s) (stackAddendum s) f cx ''''"
  let ?v = "leaves (DEV s) (stackAddendum s) T"
  have "outcome ?h ?v 0 [] \<noteq> Inl DepthExceeded"
  proof
    assume a: "outcome ?h ?v 0 [] = Inl DepthExceeded"
    show False
    proof (cases "run ?h (fst ?v) 0 []")
      case (Inl e)
      with a run_h_map_error[OF Inl] show False
        by (auto simp: outcome_def invalidChild_def)
    next
      case (Inr ys)
      with a have "snd ?v = Some DepthExceeded"
        by (auto simp: outcome_def split: option.splits)
      then show False
        by (auto simp: leaves_def firstObject_visit invalidChild_def split: if_splits)
    qed
  qed
  then show "fst (mapChildren (Suc d) T f cx s) \<noteq> Inl DepthExceeded"
    by (cases "outcome ?h ?v 0 []") (auto simp: mapChildren_result[OF assms])
  show "fst (mapChildren (Suc d) T f cx s) = fst (mapChildren (Suc 0) T f cx s)"
    by (simp add: mapChildren_result[OF assms])
qed

subsection \<open>Held contexts and the capacity of the pool\<close>

text \<open>An operation called while the contexts \<open>A\<close> are held (from the callback of an
  enclosing operation) leaves them held: it neither pools nor loses them.\<close>

lemma operations_held:
  assumes "held A s"
  shows "held A (snd (countChildren T s))"
    and "held A (snd (forEachChildren T f cx s))"
    and "held A (snd (mapChildren (Suc d) T f cx s))"
    and "held A (snd (toArray d' T s))"
  using countChildren_leaves[OF assms, of T "fst (countChildren T s)" "snd (countChildren T s)"]
    forEachChildren_leaves[OF assms, of T f cx "fst (forEachChildren T f cx s)"
          "snd (forEachChildren T f cx s)"]
    mapChildren_leaves[OF assms, of d T f cx "fst (mapChildren (Suc d) T f cx s)"
          "snd (mapChildren (Suc d) T f cx s)"]
    toArray_leaves[OF assms, of d' T "fst (toArray d' T s)" "snd (toArray d' T s)"]
  by simp_all

lemma release_pool:
  "traverseContextPool (releaseTraverseContext a s) =
     (if length (traverseContextPool s) < POOL_SIZE then traverseContextPool s @ [a]
      else traverseContextPool s)"
  by (simp add: releaseTraverseContext_def Let_def)

lemma release_cleared:
  "a < length (contexts s) \<Longrightarrow> cleared (contexts (releaseTraverseContext a s) ! a)"
  by (simp add: releaseTraverseContext_def Let_def cleared_def)

section \<open>Properties\<close>

subsection \<open>Key escaper\<close>

text \<open>
  Claim C9. \<open>escape\<close> replaces every \<^verbatim>\<open>=\<close> of its input by \<^verbatim>\<open>=0\<close> and every \<^verbatim>\<open>:\<close> by \<^verbatim>\<open>=2\<close>,
  character by character in one pass, leaves every other character as it is, and puts
  \<^verbatim>\<open>$\<close> in front. The explicit key \<^verbatim>\<open>a:b=c\<close> becomes \<^verbatim>\<open>$a=2b=0c\<close>, and that is the path segment
  \<open>getComponentKey\<close> gives an element with this key, whatever its index.
\<close>

theorem escape_substitutes:
  "escape k =
     CHR ''$'' # concat (map (\<lambda>c. if c = CHR ''='' then ''=0''
                               else if c = CHR '':'' then ''=2'' else [c]) k)
   \<and> escape ''a:b=c'' = ''$a=2b=0c''
   \<and> getComponentKey (VElement \<lparr>key = Some ''a:b=c'', payload = p\<rparr>) i = ''$a=2b=0c''"
proof -
  have sub: "(\<lambda>c. if escapeRegex c
                  then (case map_of escaperLookup c of Some r \<Rightarrow> r | None \<Rightarrow> ''undefined'')
                  else [c])
           = (\<lambda>c. if c = CHR ''='' then ''=0'' else if c = CHR '':'' then ''=2'' else [c])"
    by (rule ext) (simp add: escapeRegex_def escaperLookup_def)
  have gen: "escape k =
     CHR ''$'' # concat (map (\<lambda>c. if c = CHR ''='' then ''=0''
                               else if c = CHR '':'' then ''=2'' else [c]) k)" for k
    by (simp add: escape_def replaceAll_concat sub)
  have ex: "escape ''a:b=c'' = ''$a=2b=0c''"
    by (simp add: gen)
  show ?thesis
    using gen ex by (simp add: getComponentKey_def)
qed

subsection \<open>The single-child assertion\<close>

text \<open>
  Claim C5. \<open>onlyChild\<close> returns its argument unchanged when the argument is itself an
  element, and raises the single-child error on every other value; in particular on an
  array and on an iterable that hold exactly one element.
\<close>

theorem onlyChild_element_or_error:
  "onlyChild children =
     (case children of
        VElement e \<Rightarrow> Inr children
      | _ \<Rightarrow> Inl (InvariantViolation
                 ''React.Children.only expected to receive a single React element child.'' []))
   \<and> onlyChild (VArray [VElement e]) =
       Inl (InvariantViolation
             ''React.Children.only expected to receive a single React element child.'' [])
   \<and> onlyChild (VIterable m [VElement e]) =
       Inl (InvariantViolation
             ''React.Children.only expected to receive a single React element child.'' [])"
  by (cases children) (simp_all add: onlyChild_def)

subsection \<open>Null roots\<close>

text \<open>
  Claim C7. \<open>mapChildren\<close> on a null root returns null and on an undefined root returns
  undefined, with the state untouched: no array, no error. \<open>toArray\<close> returns an array
  whenever it returns: the empty array on a null and on an undefined root, and on every
  other tree either an array or the error of the traversal.
\<close>

theorem map_passes_null_toArray_returns_array:
  "mapChildren d VNull f cx s = (Inr VNull, s) \<and>
   mapChildren d VUndefined f cx s = (Inr VUndefined, s) \<and>
   fst (toArray d VNull s) = Inr (VArray []) \<and>
   fst (toArray d VUndefined s) = Inr (VArray []) \<and>
   (case fst (toArray d T s) of Inl e \<Rightarrow> True | Inr v \<Rightarrow> isArray v)"
proof -
  have a: "arrays (snd (getPooledTraverseContext r kp g c s1)) = arrays s1" for r kp g c s1
    by (simp add: getPooledTraverseContext_def Let_def)
  have b: "arrays (releaseTraverseContext a s1) = arrays s1" for a s1
    by (simp add: releaseTraverseContext_def Let_def)
  have n: "fst (toArray d T s) = Inr (VArray [])" if "T = VNull \<or> T = VUndefined" for T
    using that a[of "Some (length (arrays s))" "Some ''''" "Some (\<lambda>this child i. child)" VUndefined
                   "s\<lparr>arrays := arrays s @ [[]]\<rparr>"]
    by (auto simp: toArray_def Let_def mapIntoWithKeyPrefixInternal.simps traverseAllChildren_def b
             split: prod.splits)
  have "case fst (toArray d T s) of Inl e \<Rightarrow> True | Inr v \<Rightarrow> isArray v"
    by (auto simp: toArray_def Let_def split: prod.splits sum.splits)
  with n show ?thesis
    by (simp add: mapChildren_def)
qed

subsection \<open>The pool\<close>

text \<open>
  Claim C10. From a state whose pool is in order, each of the four child operations ends,
  whether it returns or raises, in a state whose pool is in order: the pool holds at most
  \<open>POOL_SIZE\<close> = 10 contexts, and every context in the pool has its result array, key
  prefix, function and bound context cleared and its count reset. A context held by a
  traversal that raised is not given back: it is not in the pool.

  The same holds under re-entrant use, where more than 10 contexts can be live. An
  operation called while the contexts \<open>A\<close> are held by its callers leaves them held, out
  of the pool. Acquiring hands out a context that no caller holds and that is not in the
  pool. Releasing a held context clears it, and pools it only while the pool has fewer
  than \<open>POOL_SIZE\<close> contexts: released into a full pool, the context is dropped and the pool
  stays as it is, 10 long. So the bracket an operation puts around its callbacks, acquire
  and then release, keeps the callers' contexts held whatever the callbacks do in between
  (\<open>k\<close>), as long as that keeps held contexts held, which is what every operation does.
  The transform of the model is a function of its arguments and does not itself call the
  module again: re-entrant use is covered by these statements on states where contexts
  are held.

  In the witness, from the initial state, the map that raises leaves the pool with the
  context of the nested traversal that had returned (address 1), and the map that returns
  leaves it with both contexts. Its second state is that of twelve nested calls of which
  the ten innermost have returned: the pool is full, the contexts 0 and 1 are still held,
  and releasing context 1 leaves the pool unchanged.
\<close>

theorem pool_safety:
  assumes "pool_ok s"
  shows "pool_ok (snd (countChildren T s)) \<and>
         pool_ok (snd (forEachChildren T f cx s)) \<and>
         pool_ok (snd (mapChildren (Suc d) T f cx s)) \<and>
         pool_ok (snd (toArray d' T s)) \<and>
         (held A s \<longrightarrow>
            held A (snd (countChildren T s)) \<and>
            held A (snd (forEachChildren T f cx s)) \<and>
            held A (snd (mapChildren (Suc d) T f cx s)) \<and>
            held A (snd (toArray d' T s))) \<and>
         (held A s \<longrightarrow>
            fst (getPooledTraverseContext r kp g c s) \<notin> A \<and>
            held (insert (fst (getPooledTraverseContext r kp g c s)) A)
              (snd (getPooledTraverseContext r kp g c s))) \<and>
         (held (insert a A) s \<and> a \<notin> A \<longrightarrow>
            held A (releaseTraverseContext a s) \<and>
            pool_ok (releaseTraverseContext a s) \<and>
            cleared (contexts (releaseTraverseContext a s) ! a) \<and>
            traverseContextPool (releaseTraverseContext a s) =
              (if length (traverseContextPool s) < POOL_SIZE then traverseContextPool s @ [a]
               else traverseContextPool s) \<and>
            length (traverseContextPool (releaseTraverseContext a s)) \<le> 10) \<and>
         (held A s \<and> (\<forall>B s'. held B s' \<longrightarrow> held B (k s')) \<longrightarrow>
            held A (releaseTraverseContext (fst (getPooledTraverseContext r kp g c s))
                      (k (snd (getPooledTraverseContext r kp g c s)))))"
proof -
  have ops: "pool_ok (snd (countChildren T s)) \<and>
         pool_ok (snd (forEachChildren T f cx s)) \<and>
         pool_ok (snd (mapChildren (Suc d) T f cx s)) \<and>
         pool_ok (snd (toArray d' T s))"
    using operations_held[OF assms[folded held_empty]] by (simp add: held_empty)
  have reentrant: "held A (snd (countChildren T s)) \<and>
            held A (snd (forEachChildren T f cx s)) \<and>
            held A (snd (mapChildren (Suc d) T f cx s)) \<and>
            held A (snd (toArray d' T s))" if "held A s"
    using operations_held[OF that] by simp
  have acquire: "fst (getPooledTraverseContext r kp g c s) \<notin> A \<and>
            held (insert (fst (getPooledTraverseContext r kp g c s)) A)
              (snd (getPooledTraverseContext r kp g c s))" if "held A s"
    using getPooled_held[OF that, of r kp g c "fst (getPooledTraverseContext r kp g c s)"
            "snd (getPooledTraverseContext r kp g c s)"]
    by simp
  have release: "held A (releaseTraverseContext a s) \<and>
            pool_ok (releaseTraverseContext a s) \<and>
            cleared (contexts (releaseTraverseContext a s) ! a) \<and>
            traverseContextPool (releaseTraverseContext a s) =
              (if length (traverseContextPool s) < POOL_SIZE then traverseContextPool s @ [a]
               else traverseContextPool s) \<and>
            length (traverseContextPool (releaseTraverseContext a s)) \<le> 10"
    if h: "held (insert a A) s" and na: "a \<notin> A"
  proof -
    have r: "held A (releaseTraverseContext a s)"
      using release_held[OF h na] by simp
    then have p: "pool_ok (releaseTraverseContext a s)"
      by (simp add: held_def)
    have lt: "a < length (contexts s)"
      using h by (simp add: held_def)
    from p have "length (traverseContextPool (releaseTraverseContext a s)) \<le> 10"
      by (simp add: pool_ok_def POOL_SIZE_def)
    with r p release_cleared[OF lt] show ?thesis
      by (simp add: release_pool)
  qed
  have bracket: "held A (releaseTraverseContext (fst (getPooledTraverseContext r kp g c s))
                      (k (snd (getPooledTraverseContext r kp g c s))))"
    if h: "held A s" and k: "\<forall>B s'. held B s' \<longrightarrow> held B (k s')"
  proof -
    let ?a = "fst (getPooledTraverseContext r kp g c s)"
    let ?s1 = "snd (getPooledTraverseContext r kp g c s)"
    from acquire[OF h] have na: "?a \<notin> A" and h1: "held (insert ?a A) ?s1"
      by simp_all
    from k h1 have "held (insert ?a A) (k ?s1)"
      by blast
    from release_held[OF this na] show ?thesis
      by simp
  qed
  from ops reentrant acquire release bracket show ?thesis
    by blast
qed

theorem pool_safety_witness:
  "pool_ok (init True ''in App'') \<and>
   pool_ok (snd (countChildren
      (VArray [VString ''a'', VObject None ''[object Object]'' [''x'']]) (init True ''in App''))) \<and>
   pool_ok (snd (forEachChildren
      (VArray [VString ''a'', VObject None ''[object Object]'' [''x'']]) (\<lambda>this c i. c) VUndefined
      (init True ''in App''))) \<and>
   pool_ok (snd (mapChildren (Suc 0)
      (VArray [VString ''a'', VObject None ''[object Object]'' [''x'']]) (\<lambda>this c i. VArray [c, c])
      VUndefined (init True ''in App''))) \<and>
   pool_ok (snd (toArray (Suc 0)
      (VArray [VString ''a'', VObject None ''[object Object]'' [''x'']]) (init True ''in App''))) \<and>
   traverseContextPool (snd (mapChildren (Suc 0)
      (VArray [VString ''a'', VObject None ''[object Object]'' [''x'']]) (\<lambda>this c i. VArray [c, c])
      VUndefined (init True ''in App''))) = [1] \<and>
   traverseContextPool (snd (mapChildren (Suc 0)
      (VArray [VString ''a'', VNull]) (\<lambda>this c i. VArray [c, c])
      VUndefined (init True ''in App''))) = [1, 0] \<and>
   pool_ok (unwound [11, 10, 9, 8, 7, 6, 5, 4, 3, 2] (nested 12 (init False ''''))) \<and>
   held {0} (unwound [11, 10, 9, 8, 7, 6, 5, 4, 3, 2] (nested 12 (init False ''''))) \<and>
   held (insert 1 {0}) (unwound [11, 10, 9, 8, 7, 6, 5, 4, 3, 2] (nested 12 (init False ''''))) \<and>
   (1::nat) \<notin> {0} \<and>
   traverseContextPool (unwound [11, 10, 9, 8, 7, 6, 5, 4, 3, 2] (nested 12 (init False ''''))) =
     [11, 10, 9, 8, 7, 6, 5, 4, 3, 2] \<and>
   held {0} (snd (mapChildren (Suc 0) (VArray [VString ''a'', VNull]) (\<lambda>this c i. VArray [c, c])
      VUndefined (unwound [11, 10, 9, 8, 7, 6, 5, 4, 3, 2] (nested 12 (init False ''''))))) \<and>
   held {0} (releaseTraverseContext 1
      (unwound [11, 10, 9, 8, 7, 6, 5, 4, 3, 2] (nested 12 (init False '''')))) \<and>
   cleared (contexts (releaseTraverseContext 1
      (unwound [11, 10, 9, 8, 7, 6, 5, 4, 3, 2] (nested 12 (init False '''')))) ! 1) \<and>
   traverseContextPool (releaseTraverseContext 1
      (unwound [11, 10, 9, 8, 7, 6, 5, 4, 3, 2] (nested 12 (init False '''')))) =
     [11, 10, 9, 8, 7, 6, 5, 4, 3, 2] \<and>
   held {0}
     (releaseTraverseContext
        (fst (getPooledTraverseContext None None (Some (\<lambda>this c i. c)) VUndefined
                (unwound [11, 10, 9, 8, 7, 6, 5, 4, 3, 2] (nested 12 (init False '''')))))
        (snd (forEachChildren (VString ''a'') (\<lambda>this c i. c) VUndefined
                (snd (getPooledTraverseContext None None (Some (\<lambda>this c i. c)) VUndefined
                        (unwound [11, 10, 9, 8, 7, 6, 5, 4, 3, 2] (nested 12 (init False ''''))))))))"
proof -
  have h: "pool_ok (init True ''in App'')"
    by (simp add: pool_ok_def init_def)
  have raised: "traverseContextPool (snd (mapChildren (Suc 0)
      (VArray [VString ''a'', VObject None ''[object Object]'' [''x'']]) (\<lambda>this c i. VArray [c, c])
      VUndefined (init True ''in App''))) = [1]"
    by (simp add: mapChildren_def mapIntoWithKeyPrefixInternal.simps getPooledTraverseContext_def
          init_def traverseAllChildren_def invokeCallback_def mapSingleChildIntoContext.simps
          releaseTraverseContext_def POOL_SIZE_def Let_def nextNamePrefix_def rekey_def)
  have returned: "traverseContextPool (snd (mapChildren (Suc 0)
      (VArray [VString ''a'', VNull]) (\<lambda>this c i. VArray [c, c])
      VUndefined (init True ''in App''))) = [1, 0]"
    by (simp add: mapChildren_def mapIntoWithKeyPrefixInternal.simps getPooledTraverseContext_def
          init_def traverseAllChildren_def invokeCallback_def mapSingleChildIntoContext.simps
          releaseTraverseContext_def POOL_SIZE_def Let_def nextNamePrefix_def rekey_def)
  define w where "w = unwound [11, 10, 9, 8, 7, 6, 5, 4, 3, 2] (nested 12 (init False ''''))"
  have twelve: "(12::nat) = Suc (Suc (Suc (Suc (Suc (Suc (Suc (Suc (Suc (Suc (Suc (Suc 0)))))))))))"
    by simp
  have pool: "traverseContextPool w = [11, 10, 9, 8, 7, 6, 5, 4, 3, 2]"
    unfolding w_def twelve
    by (simp add: getPooledTraverseContext_def releaseTraverseContext_def init_def POOL_SIZE_def
          Let_def)
  have len: "length (contexts w) = 12"
    unfolding w_def twelve
    by (simp add: getPooledTraverseContext_def releaseTraverseContext_def init_def POOL_SIZE_def
          Let_def)
  have cl: "\<forall>a \<in> set [11, 10, 9, 8, 7, 6, 5, 4, 3, 2]. cleared (contexts w ! a)"
    unfolding w_def twelve
    by (simp add: getPooledTraverseContext_def releaseTraverseContext_def init_def POOL_SIZE_def
          Let_def cleared_def)
  have ok: "pool_ok w"
    using cl by (simp add: pool_ok_def pool len POOL_SIZE_def)
  have h0: "held {0} w" and h1: "held (insert 1 {0}) w"
    using ok by (simp_all add: held_def pool len)
  have n: "(1::nat) \<notin> {0}"
    by simp
  from pool_safety[OF ok, where A="{0}" and a=1 and d=0 and cx=VUndefined
      and T="VArray [VString ''a'', VNull]" and f="\<lambda>this c i. VArray [c, c]"] h0 h1 n
  have "held {0} (snd (mapChildren (Suc 0) (VArray [VString ''a'', VNull])
          (\<lambda>this c i. VArray [c, c]) VUndefined w))"
    and "held {0} (releaseTraverseContext 1 w)"
    and "cleared (contexts (releaseTraverseContext 1 w) ! 1)"
    and "traverseContextPool (releaseTraverseContext 1 w) = [11, 10, 9, 8, 7, 6, 5, 4, 3, 2]"
    by (simp_all add: pool POOL_SIZE_def)
  moreover have keeps: "\<forall>B s'. held B s' \<longrightarrow>
      held B (snd (forEachChildren (VString ''a'') (\<lambda>this c i. c) VUndefined s'))"
    by (simp add: operations_held)
  from pool_safety[OF ok, where A="{0}" and r=None and kp=None and g="Some (\<lambda>this c i. c)"
      and c=VUndefined
      and k="\<lambda>s'. snd (forEachChildren (VString ''a'') (\<lambda>this c i. c) VUndefined s')"] h0 keeps
  have "held {0}
     (releaseTraverseContext
        (fst (getPooledTraverseContext None None (Some (\<lambda>this c i. c)) VUndefined w))
        (snd (forEachChildren (VString ''a'') (\<lambda>this c i. c) VUndefined
                (snd (getPooledTraverseContext None None (Some (\<lambda>this c i. c)) VUndefined w)))))"
    by blast
  ultimately show ?thesis
    using pool_safety[OF h] h raised returned ok h0 h1 n pool
    unfolding w_def by blast
qed

subsection \<open>Counting and flattening\<close>

text \<open>
  Claim C1, as the code has it. \<open>countChildren\<close> counts every leaf, \<open>toArray\<close> drops the
  leaves that are null, undefined or a boolean: the count is the length of the array plus
  the number of those leaves, so the two are equal on a tree that has none. Both raise the
  same error on a tree with an invalid object.
\<close>

theorem count_is_toArray_length_plus_nulls:
  assumes "pool_ok s"
  shows "fst (countChildren T s) =
         map_sum id (\<lambda>v. arrayLength v + nullLeaves T) (fst (toArray d T s))"
proof (cases "snd (leaves (DEV s) (stackAddendum s) T)")
  case None
  have "length (concat (map (\<lambda>(l, k). emit (Some '''') l l k) (fst (leaves (DEV s) (stackAddendum s) T))))
        + nullLeaves T = length (fst (leaves (DEV s) (stackAddendum s) T))"
    using length_emits[of "fst (leaves (DEV s) (stackAddendum s) T)" "Some ''''"]
      leaves_renderable[of _ _ "DEV s" "stackAddendum s" T] nulls_leaves[OF None]
    by simp
  then show ?thesis
    by (simp add: countChildren_result[OF assms] toArray_result[OF assms] None tally_def)
next
  case (Some e)
  then show ?thesis
    by (simp add: countChildren_result[OF assms] toArray_result[OF assms] tally_def)
qed

theorem count_is_toArray_length_plus_nulls_witness:
  "pool_ok (init False '''') \<and>
   fst (countChildren (VArray [VString ''a'', VNull, VArray [VBool True, VNumber 1]]) (init False ''''))
     = map_sum id
         (\<lambda>v. arrayLength v + nullLeaves (VArray [VString ''a'', VNull, VArray [VBool True, VNumber 1]]))
         (fst (toArray (Suc 0) (VArray [VString ''a'', VNull, VArray [VBool True, VNumber 1]])
                (init False '''')))"
proof -
  have h: "pool_ok (init False '''')"
    by (simp add: pool_ok_def init_def)
  from count_is_toArray_length_plus_nulls[OF h] h show ?thesis
    by blast
qed

text \<open>Claim C1 as stated fails on the array that holds one null: the count is 1 and the
  array \<open>toArray\<close> returns is empty.\<close>

theorem count_is_not_toArray_length:
  "fst (countChildren (VArray [VNull]) (init False '''')) = Inr 1 \<and>
   fst (toArray (Suc 0) (VArray [VNull]) (init False '''')) = Inr (VArray []) \<and>
   fst (countChildren (VArray [VNull]) (init False ''''))
     \<noteq> map_sum id arrayLength (fst (toArray (Suc 0) (VArray [VNull]) (init False '''')))"
  by (simp add: countChildren_result[OF pool_ok_init] toArray_result[OF pool_ok_init]
        leaves_singleton tally_def emit_def)

text \<open>
  Claim C2. On the array of an element \<open>a\<close>, null and an element \<open>b\<close>, \<open>mapChildren\<close> with
  the identity returns two values, \<open>a\<close> and \<open>b\<close> in this order, each re-keyed with its
  path (the null is dropped), and \<open>countChildren\<close> returns 3 (the null is counted).
\<close>

theorem map_drops_null_count_counts_it:
  assumes "pool_ok s"
  shows "fst (mapChildren (Suc d) (VArray [VElement a, VNull, VElement b]) (\<lambda>this c i. c) cx s) =
           Inr (VArray [VElement (a\<lparr>key := Some (''.'' @ getComponentKey (VElement a) 0)\<rparr>),
                        VElement (b\<lparr>key := Some (''.'' @ getComponentKey (VElement b) 2)\<rparr>)])
       \<and> fst (countChildren (VArray [VElement a, VNull, VElement b]) s) = Inr 3"
proof -
  have two: "Suc (Suc 0) = 2" by simp
  have l: "leaves dev stack (VArray [VElement a, VNull, VElement b]) =
        ([(VElement a, ''.'' @ getComponentKey (VElement a) 0),
          (VNull, ''.'' @ getComponentKey VNull 1),
          (VElement b, ''.'' @ getComponentKey (VElement b) 2)], None)" for dev stack
    by (simp add: leaves_def nextNamePrefix_def SEPARATOR_def leafName_def two)
  show ?thesis
    by (simp add: mapChildren_result[OF assms] countChildren_result[OF assms] l tally_def
          outcome_def h_map_def emit_def rekey_same)
qed

theorem map_drops_null_count_counts_it_witness:
  "pool_ok (init False '''') \<and>
   fst (mapChildren (Suc 0)
          (VArray [VElement \<lparr>key = None, payload = ''a''\<rparr>, VNull,
                   VElement \<lparr>key = Some ''k'', payload = ''b''\<rparr>])
          (\<lambda>this c i. c) VUndefined (init False '''')) =
     Inr (VArray [VElement \<lparr>key = Some ''.0'', payload = ''a''\<rparr>,
                  VElement \<lparr>key = Some ''.$k'', payload = ''b''\<rparr>])
   \<and> fst (countChildren
          (VArray [VElement \<lparr>key = None, payload = ''a''\<rparr>, VNull,
                   VElement \<lparr>key = Some ''k'', payload = ''b''\<rparr>])
          (init False '''')) = Inr 3"
proof -
  have h: "pool_ok (init False '''')"
    by (simp add: pool_ok_def init_def)
  have k: "getComponentKey (VElement \<lparr>key = None, payload = ''a''\<rparr>) 0 = ''0''"
    "getComponentKey (VElement \<lparr>key = Some ''k'', payload = ''b''\<rparr>) 2 = ''$k''"
    by (simp_all add: getComponentKey_def digits36_def escape_def escapeRegex_def)
  from map_drops_null_count_counts_it[OF h, of 0 "\<lparr>key = None, payload = ''a''\<rparr>"
      "\<lparr>key = Some ''k'', payload = ''b''\<rparr>" VUndefined] h k
  show ?thesis
    by simp
qed

subsection \<open>Key stability\<close>

text \<open>
  Claim C8. For every single leaf \<open>v\<close>, \<open>toArray\<close> of \<open>v\<close> and \<open>toArray\<close> of the one-element
  array of \<open>v\<close> return the same array: an element, the only leaf that is given a key, gets
  the key \<^verbatim>\<open>.\<close> followed by its own escaped key or by the index 0 in both.
\<close>

theorem toArray_single_child_same_key:
  assumes "pool_ok s" and "isLeaf v"
  shows "fst (toArray d v s) = fst (toArray d (VArray [v]) s)
       \<and> fst (toArray d (VElement e) s) =
           Inr (VArray [VElement (e\<lparr>key := Some (''.'' @ getComponentKey (VElement e) 0)\<rparr>)])
       \<and> fst (toArray d (VArray [VElement e]) s) =
           Inr (VArray [VElement (e\<lparr>key := Some (''.'' @ getComponentKey (VElement e) 0)\<rparr>)])"
proof -
  have "fst (toArray d v s) = fst (toArray d (VArray [v]) s)"
    using assms(2)
    by (cases v)
       (simp_all add: toArray_result[OF assms(1)] leaves_singleton leaves_leaf emit_def
          getComponentKey_def SEPARATOR_def)
  moreover have "fst (toArray d (VElement e) s) =
           Inr (VArray [VElement (e\<lparr>key := Some (''.'' @ getComponentKey (VElement e) 0)\<rparr>)])"
    by (simp add: toArray_result[OF assms(1)] leaves_leaf emit_def rekey_same SEPARATOR_def)
  moreover have "fst (toArray d (VArray [VElement e]) s) =
           Inr (VArray [VElement (e\<lparr>key := Some (''.'' @ getComponentKey (VElement e) 0)\<rparr>)])"
    by (simp add: toArray_result[OF assms(1)] leaves_singleton emit_def rekey_same SEPARATOR_def)
  ultimately show ?thesis by simp
qed

theorem toArray_single_child_same_key_witness:
  "pool_ok (init False '''') \<and> isLeaf (VElement \<lparr>key = Some ''a:b'', payload = ''p''\<rparr>) \<and>
   fst (toArray (Suc 0) (VElement \<lparr>key = Some ''a:b'', payload = ''p''\<rparr>) (init False '''')) =
     fst (toArray (Suc 0) (VArray [VElement \<lparr>key = Some ''a:b'', payload = ''p''\<rparr>]) (init False '''')) \<and>
   fst (toArray (Suc 0) (VElement \<lparr>key = Some ''a:b'', payload = ''p''\<rparr>) (init False '''')) =
     Inr (VArray [VElement \<lparr>key = Some ''.$a=2b'', payload = ''p''\<rparr>])"
proof -
  have h: "pool_ok (init False '''')"
    by (simp add: pool_ok_def init_def)
  have l: "isLeaf (VElement \<lparr>key = Some ''a:b'', payload = ''p''\<rparr>)"
    by simp
  have k: "getComponentKey (VElement \<lparr>key = Some ''a:b'', payload = ''p''\<rparr>) 0 = ''$a=2b''"
    by (simp add: getComponentKey_def escape_def escapeRegex_def escaperLookup_def)
  from toArray_single_child_same_key[OF h l, of "Suc 0" "\<lparr>key = Some ''a:b'', payload = ''p''\<rparr>"] h k
  show ?thesis
    by simp
qed

subsection \<open>Flattening what the transform returns\<close>

text \<open>
  Claim C4, as the code has it. \<open>mapChildren\<close> with the transform that wraps each child in
  a one-element array and \<open>mapChildren\<close> with the identity return the same values in the
  same order, nothing duplicated, dropped or reordered, and raise the same error if any;
  the two outputs differ only in the keys given to the elements, since the wrapped child
  is re-keyed under the path of the nested traversal.
\<close>

theorem map_wrapping_same_leaves:
  assumes "pool_ok s"
  shows "map_sum id eraseKeys (fst (mapChildren (Suc d) T (\<lambda>this x i. VArray [x]) cx s)) =
         map_sum id eraseKeys (fst (mapChildren (Suc d) T (\<lambda>this x i. x) cx s))"
proof (cases "T = VNull \<or> T = VUndefined")
  case True
  then show ?thesis
    by (auto simp: mapChildren_def)
next
  case False
  let ?dev = "DEV s" and ?stack = "stackAddendum s"
  let ?v = "leaves ?dev ?stack T"
  let ?g1 = "\<lambda>l k. emit (Some (escapeUserProvidedKey k @ ''/'')) l l (SEPARATOR @ getComponentKey l 0)"
  let ?g2 = "\<lambda>l k. emit (Some '''') l l k"
  have r: "renderable l" if "(l, k) \<in> set (fst ?v)" for l k
    using that by (rule leaves_renderable)
  have r1: "run (h_map ?dev ?stack (\<lambda>this x i. VArray [x]) cx '''') (fst ?v) 0 [] =
            Inr ([] @ concat (map (\<lambda>(l, k). ?g1 l k) (fst ?v)))"
    by (rule run_Inr) (simp add: h_map_wrap r)
  have r2: "run (h_map ?dev ?stack (\<lambda>this x i. x) cx '''') (fst ?v) 0 [] =
            Inr ([] @ concat (map (\<lambda>(l, k). ?g2 l k) (fst ?v)))"
    by (rule run_Inr) (simp add: h_map_identity r)
  have e: "map eraseKey (concat (map (\<lambda>(l, k). ?g1 l k) (fst ?v))) =
           map eraseKey (concat (map (\<lambda>(l, k). ?g2 l k) (fst ?v)))"
    using eraseKey_emits[of "fst ?v" "\<lambda>l k. escapeUserProvidedKey k @ ''/''"
                           "\<lambda>l k. SEPARATOR @ getComponentKey l 0", OF r]
      eraseKey_emits[of "fst ?v" "\<lambda>l k. ''''" "\<lambda>l k. k", OF r]
    by simp
  show ?thesis
    using False e
    by (simp add: mapChildren_result[OF assms] outcome_def r1 r2 split: option.splits)
qed

theorem map_wrapping_same_leaves_witness:
  "pool_ok (init False '''') \<and>
   map_sum id eraseKeys
     (fst (mapChildren (Suc 0)
             (VArray [VElement \<lparr>key = Some ''k'', payload = ''a''\<rparr>, VNull, VString ''t''])
             (\<lambda>this x i. VArray [x]) VUndefined (init False ''''))) =
   map_sum id eraseKeys
     (fst (mapChildren (Suc 0)
             (VArray [VElement \<lparr>key = Some ''k'', payload = ''a''\<rparr>, VNull, VString ''t''])
             (\<lambda>this x i. x) VUndefined (init False '''')))"
proof -
  have h: "pool_ok (init False '''')"
    by (simp add: pool_ok_def init_def)
  from map_wrapping_same_leaves[OF h] h show ?thesis
    by blast
qed

text \<open>Claim C4 as stated fails on a single element without a key: under the identity its
  clone has the key \<^verbatim>\<open>.0\<close>, under the wrapping transform the key \<^verbatim>\<open>.0/.0\<close>.\<close>

theorem map_wrapping_changes_keys:
  "fst (mapChildren (Suc 0) (VElement \<lparr>key = None, payload = ''a''\<rparr>)
          (\<lambda>this x i. VArray [x]) VUndefined (init False '''')) =
     Inr (VArray [VElement \<lparr>key = Some ''.0/.0'', payload = ''a''\<rparr>]) \<and>
   fst (mapChildren (Suc 0) (VElement \<lparr>key = None, payload = ''a''\<rparr>)
          (\<lambda>this x i. x) VUndefined (init False '''')) =
     Inr (VArray [VElement \<lparr>key = Some ''.0'', payload = ''a''\<rparr>]) \<and>
   fst (mapChildren (Suc 0) (VElement \<lparr>key = None, payload = ''a''\<rparr>)
          (\<lambda>this x i. VArray [x]) VUndefined (init False ''''))
   \<noteq> fst (mapChildren (Suc 0) (VElement \<lparr>key = None, payload = ''a''\<rparr>)
          (\<lambda>this x i. x) VUndefined (init False ''''))"
  by (simp add: mapChildren_result[OF pool_ok_init] leaves_leaf outcome_def h_map_wrap
        h_map_identity emit_def rekey_same getComponentKey_def SEPARATOR_def digits36_def)

subsection \<open>Invalid children\<close>

text \<open>
  Claim C6, as the code has it. On a tree that holds an object that is neither a leaf, an
  array nor an iterable, \<open>countChildren\<close>, \<open>forEachChildren\<close> and \<open>toArray\<close> raise the
  invalid-child error of the first such object in traversal order: its message lists the
  property names of that object when the object's string is \<^verbatim>\<open>[object Object]\<close>, and is the
  object's string otherwise. \<open>mapChildren\<close> raises an invalid-child error too: that of the
  same object when the transform returns no array, and otherwise possibly that of an
  object in an array the transform returned for an earlier leaf.
\<close>

theorem invalid_child_raises:
  assumes "pool_ok s" and "firstObject T = Some (str, names)"
  shows "fst (countChildren T s) = Inl (invalidChild (DEV s) (stackAddendum s) str names) \<and>
         fst (forEachChildren T f cx s) = Inl (invalidChild (DEV s) (stackAddendum s) str names) \<and>
         fst (toArray d T s) = Inl (invalidChild (DEV s) (stackAddendum s) str names) \<and>
         (\<exists>str' names'. fst (mapChildren (Suc d) T f cx s) =
                          Inl (invalidChild (DEV s) (stackAddendum s) str' names')) \<and>
         ((\<forall>c i. renderable c \<longrightarrow> \<not> isArray (f cx c i)) \<longrightarrow>
            fst (mapChildren (Suc d) T f cx s) =
              Inl (invalidChild (DEV s) (stackAddendum s) str names)) \<and>
         invalidChild (DEV s) (stackAddendum s) str names =
           InvariantViolation ''Objects are not valid as a React child (found: %s).%s''
             [if str = ''[object Object]'' then ''object with keys {'' @ join '', '' names @ ''}''
              else str,
              if DEV s
              then '' If you meant to render a collection of children, use an array instead.'' @
                   stackAddendum s
              else '''']"
proof -
  let ?e = "invalidChild (DEV s) (stackAddendum s) str names"
  have l: "snd (leaves (DEV s) (stackAddendum s) T) = Some ?e"
    using assms(2) by (rule firstObject_leaves)
  have n: "\<not> (T = VNull \<or> T = VUndefined)"
    using assms(2) by auto
  have "fst (countChildren T s) = Inl ?e"
    by (simp add: countChildren_result[OF assms(1)] tally_def l)
  moreover have "fst (forEachChildren T f cx s) = Inl ?e"
    using n by (simp add: forEachChildren_result[OF assms(1)] l)
  moreover have "fst (toArray d T s) = Inl ?e"
    by (simp add: toArray_result[OF assms(1)] l)
  moreover have "\<exists>str' names'. fst (mapChildren (Suc d) T f cx s) =
                          Inl (invalidChild (DEV s) (stackAddendum s) str' names')"
  proof -
    from outcome_h_map_error[OF l, of f cx "''''" 0 "[]"] obtain str' names' where
      "outcome (h_map (DEV s) (stackAddendum s) f cx '''') (leaves (DEV s) (stackAddendum s) T) 0 []
         = Inl (invalidChild (DEV s) (stackAddendum s) str' names')"
      by blast
    then have "fst (mapChildren (Suc d) T f cx s) =
                 Inl (invalidChild (DEV s) (stackAddendum s) str' names')"
      using n by (simp add: mapChildren_result[OF assms(1)])
    then show ?thesis by blast
  qed
  moreover have "fst (mapChildren (Suc d) T f cx s) = Inl ?e"
    if "\<forall>c i. renderable c \<longrightarrow> \<not> isArray (f cx c i)"
  proof -
    have "outcome (h_map (DEV s) (stackAddendum s) f cx '''')
            (leaves (DEV s) (stackAddendum s) T) 0 [] = Inl ?e"
      using that l by (rule outcome_h_map_no_array) (rule leaves_renderable)
    then show ?thesis
      using n by (simp add: mapChildren_result[OF assms(1)])
  qed
  ultimately show ?thesis
    by (simp add: invalidChild_def)
qed

theorem invalid_child_raises_witness:
  "pool_ok (init False '''') \<and>
   firstObject (VArray [VString ''a'', VObject None ''[object Object]'' [''x'']]) =
     Some (''[object Object]'', [''x'']) \<and>
   fst (countChildren (VArray [VString ''a'', VObject None ''[object Object]'' [''x'']])
          (init False '''')) =
     Inl (InvariantViolation ''Objects are not valid as a React child (found: %s).%s''
            [''object with keys {x}'', '''']) \<and>
   fst (mapChildren (Suc 0) (VArray [VString ''a'', VObject None ''[object Object]'' [''x'']])
          (\<lambda>this c i. c) VUndefined (init False '''')) =
     Inl (InvariantViolation ''Objects are not valid as a React child (found: %s).%s''
            [''object with keys {x}'', ''''])"
proof -
  have h: "pool_ok (init False '''')"
    by (simp add: pool_ok_def init_def)
  have o: "firstObject (VArray [VString ''a'', VObject None ''[object Object]'' [''x'']]) =
     Some (''[object Object]'', [''x''])"
    by simp
  have p: "\<forall>c i. renderable c \<longrightarrow> \<not> isArray ((\<lambda>this c i. c) VUndefined c i)"
    by (simp add: renderable_not_array)
  from invalid_child_raises[OF h o, of "\<lambda>this c i. c" VUndefined 0] p h o
  show ?thesis
    by (simp add: init_def)
qed

text \<open>Claim C6 as stated fails where the plain object with the property \<^verbatim>\<open>x\<close> is not the
  first invalid object met: \<open>mapChildren\<close> with a transform that returns the array of an
  object with the property \<^verbatim>\<open>y\<close>, and \<open>countChildren\<close> on a tree that holds such an object
  before, raise the error that lists \<^verbatim>\<open>y\<close>; no \<^verbatim>\<open>x\<close> is in that message.\<close>

theorem invalid_child_reports_first_object_only:
  "fst (mapChildren (Suc 0) (VArray [VString ''a'', VObject None ''[object Object]'' [''x'']])
          (\<lambda>this c i. VArray [VObject None ''[object Object]'' [''y'']]) VUndefined
          (init False '''')) =
     Inl (InvariantViolation ''Objects are not valid as a React child (found: %s).%s''
            [''object with keys {y}'', '''']) \<and>
   fst (countChildren
          (VArray [VObject None ''[object Object]'' [''y''], VObject None ''[object Object]'' [''x'']])
          (init False '''')) =
     Inl (InvariantViolation ''Objects are not valid as a React child (found: %s).%s''
            [''object with keys {y}'', '''']) \<and>
   CHR ''x'' \<notin> set ''object with keys {y}''"
proof -
  have d: "DEV (init False '''') = False" "stackAddendum (init False '''') = ''''"
    by (simp_all add: init_def)
  have m: "fst (mapChildren (Suc 0) (VArray [VString ''a'', VObject None ''[object Object]'' [''x'']])
          (\<lambda>this c i. VArray [VObject None ''[object Object]'' [''y'']]) VUndefined
          (init False '''')) =
     Inl (InvariantViolation ''Objects are not valid as a React child (found: %s).%s''
            [''object with keys {y}'', ''''])"
    by (simp add: mapChildren_result[OF pool_ok_init] d leaves_def nextNamePrefix_def leafName_def
          outcome_def h_map_def outcome_h_id invalidChild_def)
  have c: "fst (countChildren
          (VArray [VObject None ''[object Object]'' [''y''], VObject None ''[object Object]'' [''x'']])
          (init False '''')) =
     Inl (InvariantViolation ''Objects are not valid as a React child (found: %s).%s''
            [''object with keys {y}'', ''''])"
    by (simp add: countChildren_result[OF pool_ok_init] d leaves_def nextNamePrefix_def tally_def
          invalidChild_def)
  show ?thesis
    using m c by simp
qed

subsection \<open>The key of a mapped element\<close>

text \<open>
  Claim C3, at the input where the code departs from it. The transform returns an element
  whose explicit key is the empty string for a child that has no key: the two keys differ,
  so the claim gives the clone the key \<^verbatim>\<open>/.0\<close> (the empty prefix, the escaped key followed
  by a slash, the path \<^verbatim>\<open>.0\<close>). The code gives it \<^verbatim>\<open>.0\<close>: \<^verbatim>\<open>mappedChild.key && ...\<close> takes
  the empty key for no key, where \<open>getComponentKey\<close> tests \<^verbatim>\<open>component.key != null\<close> and
  makes the segment \<^verbatim>\<open>$\<close> of it.
\<close>

theorem map_loses_empty_mapped_key:
  "rekey (Some '''') (VElement \<lparr>key = None, payload = ''p''\<rparr>)
     (VElement \<lparr>key = Some '''', payload = ''q''\<rparr>) ''.0'' =
     VElement \<lparr>key = Some ''.0'', payload = ''q''\<rparr> \<and>
   fst (mapChildren (Suc 0) (VElement \<lparr>key = None, payload = ''p''\<rparr>)
          (\<lambda>this c i. VElement \<lparr>key = Some '''', payload = ''q''\<rparr>) VUndefined (init False '''')) =
     Inr (VArray [VElement \<lparr>key = Some ''.0'', payload = ''q''\<rparr>]) \<and>
   '''' @ (escapeUserProvidedKey '''' @ ''/'') @ ''.0'' = ''/.0'' \<and>
   getComponentKey (VElement \<lparr>key = Some '''', payload = ''q''\<rparr>) 0 = ''$''"
  by (simp add: mapChildren_result[OF pool_ok_init] leaves_leaf outcome_def h_map_def emit_def
        rekey_def getComponentKey_def SEPARATOR_def digits36_def escape_def)

end
